theory Spec2Isabelle
  imports Main "HOL-Library.Sublist" "HOL-Library.AList"
begin

section \<open>The offline mutation queue of \<^verbatim>\<open>client/lib/offline.ts\<close>\<close>

text \<open>
  The module keeps a durable list of write requests in a key-value store (localforage),
  replays it against the backend in batches of three, and keeps a read cache whose keys
  carry a prefix of the login token.

  Modelling decisions.
  \<^item> JavaScript strings are \<open>string\<close>; \<open>slice(0, 16)\<close> is \<open>take 16\<close>,
    \<open>startsWith\<close> is \<open>prefix\<close>, \<open>includes\<close> is \<open>sublist\<close> (a contiguous run).
  \<^item> \<open>retryCount\<close> is a \<open>nat\<close>: \<open>processQueue\<close> only ever increments it.
  \<^item> The localforage store is an association list from keys to stored values.
  \<^item> What the platform does for the item at position \<open>i\<close> of the loaded queue is
    given by an environment: the answer to its request (a response with its status, or a
    throw before any response: \<open>fetch\<close> rejected or its arguments could not be built),
    the path the \<open>URL\<close> constructor finds (or its \<open>TypeError\<close>), and whether
    \<open>localforage.keys()\<close> and each \<open>localforage.removeItem(key)\<close> of that item reject.
    All of these sit inside the \<open>try\<close> of the item, so each throw is a branch of
    \<open>run_item\<close> that ends in its \<open>catch\<close>.
  \<^item> The request that is sent (method, merged headers, serialised body) decides nothing
    of what the module does next and is not modelled.
  \<^item> \<open>loadQueue\<close> and \<open>saveQueue\<close> resolve: a pass that the store rejects as a whole
    does not complete and is not a result of \<open>processQueue\<close> here.
  \<^item> A pass runs alone: no \<open>enqueue\<close> and no second pass interleaves with it.
  \<^item> The items of one batch are in flight together under \<open>Promise.all\<close>. The model
    fixes one schedule: every item of the batch starts, in queue order, then every item of
    the batch settles, in queue order; \<open>Promise.all\<close> returns the results in the order
    of the batch whatever the order of the settlements.
\<close>

subsection \<open>Data\<close>

datatype http_method = POST | PUT | DELETE

record QueuedRequest =
  id' :: string
  url :: string
  method' :: http_method
  headers :: "(string \<times> string) list"
  body :: "string option"
  createdAt :: nat
  retryCount :: nat

text \<open>
  The argument of \<open>enqueue\<close> has the type
  \<open>Omit<QueuedRequest, "id" | "createdAt" | "retryCount">\<close>. The type asks for the four
  fields and does not forbid the three others: an object that carries them (a whole
  \<open>QueuedRequest\<close>, say) is a well-typed argument. \<open>None\<close> is a field the object does
  not carry.
\<close>

record operation =
  op_url :: string
  op_method :: http_method
  op_headers :: "(string \<times> string) list"
  op_body :: "string option"
  op_id :: "string option"
  op_createdAt :: "nat option"
  op_retryCount :: "nat option"

text \<open>What localforage holds: the queue under one key, \<open>{ts, data}\<close> wrappers under the others.\<close>

datatype stored = QueueVal "QueuedRequest list" | CacheVal nat string

type_synonym localforage = "(string \<times> stored) list"

datatype outcome = Response nat | NetworkError

text \<open>
  What can be seen of a pass from outside: the item at a position began, which is to
  wait so many milliseconds and then to build and send its request; the item at a position
  ran to its \<open>return\<close>.
\<close>

datatype event = Started nat nat | Settled nat

text \<open>
  The state around the module: \<open>navigator.onLine\<close> (\<open>None\<close> when there is no
  \<open>navigator\<close>), \<open>localStorage["auth_token"]\<close>, the localforage store, and the events
  so far.
\<close>

record world =
  navigator_onLine :: "bool option"
  auth_token :: "string option"
  lf :: localforage
  events :: "event list"

text \<open>The platform during one pass.\<close>

record env =
  pathname :: "string \<Rightarrow> string option"
  fetch :: "nat \<Rightarrow> outcome"
  keys_rejects :: "nat \<Rightarrow> bool"
  remove_rejects :: "nat \<Rightarrow> string \<Rightarrow> bool"

text \<open>The local variables of \<open>processQueue\<close>, with the store and the events it adds to.\<close>

record pass =
  remaining :: "QueuedRequest list"
  processed :: nat
  failed :: nat
  store :: localforage
  trace :: "event list"

record sync_result =
  res_processed :: nat
  res_failed :: nat
  res_remaining :: nat

subsection \<open>Constants and the store\<close>

definition QUEUE_KEY :: string where
  "QUEUE_KEY = ''offline_queue_v1''"

definition CACHE_PREFIX :: string where
  "CACHE_PREFIX = ''offline_cache_v1:''"

definition getItem :: "localforage \<Rightarrow> string \<Rightarrow> stored option" where
  "getItem st k = map_of st k"

definition setItem :: "string \<Rightarrow> stored \<Rightarrow> localforage \<Rightarrow> localforage" where
  "setItem k v st = AList.update k v st"

definition removeItem :: "string \<Rightarrow> localforage \<Rightarrow> localforage" where
  "removeItem k st = AList.delete k st"

definition keys :: "localforage \<Rightarrow> string list" where
  "keys st = map fst st"

definition isOnline :: "world \<Rightarrow> bool" where
  "isOnline w = (case navigator_onLine w of None \<Rightarrow> True | Some b \<Rightarrow> b)"

subsection \<open>The read cache\<close>

definition getTokenForCache :: "world \<Rightarrow> string option" where
  "getTokenForCache w = auth_token w"

text \<open>\<open>token ? token.slice(0, 16) : "anon"\<close>: \<open>null\<close> and the empty string are both falsy.\<close>

definition fingerprint :: "string option \<Rightarrow> string" where
  "fingerprint token =
     (case token of
        None \<Rightarrow> ''anon''
      | Some t \<Rightarrow> if t \<noteq> [] then take 16 t else ''anon'')"

definition cacheKeyFor :: "world \<Rightarrow> string \<Rightarrow> string" where
  "cacheKeyFor w u = CACHE_PREFIX @ ''GET:'' @ u @ '':t='' @ fingerprint (getTokenForCache w)"

definition getCached :: "world \<Rightarrow> string \<Rightarrow> string option" where
  "getCached w k =
     (case getItem (lf w) k of
        Some (CacheVal ts d) \<Rightarrow> Some d
      | _ \<Rightarrow> None)"

definition setCached :: "nat \<Rightarrow> string \<Rightarrow> string \<Rightarrow> world \<Rightarrow> world" where
  "setCached now k d w = w\<lparr>lf := setItem k (CacheVal now d) (lf w)\<rparr>"

subsection \<open>The queue\<close>

definition loadQueue :: "localforage \<Rightarrow> QueuedRequest list" where
  "loadQueue st =
     (case getItem st QUEUE_KEY of
        Some (QueueVal q) \<Rightarrow> q
      | _ \<Rightarrow> [])"

definition saveQueue :: "QueuedRequest list \<Rightarrow> localforage \<Rightarrow> localforage" where
  "saveQueue q st = setItem QUEUE_KEY (QueueVal q) st"

text \<open>\<open>String(n)\<close> for a non-negative integer.\<close>

definition digit :: "nat \<Rightarrow> char" where
  "digit n = ''0123456789'' ! (n mod 10)"

function decimal :: "nat \<Rightarrow> string" where
  "decimal n = (if n < 10 then [digit n] else decimal (n div 10) @ [digit n])"
  by pat_completeness auto
termination
  by (relation "measure id") auto

declare decimal.simps [simp del]

text \<open>
  \<open>enqueue\<close> reads the clock twice (\<open>now1\<close> for the identifier, \<open>now2\<close> for
  \<open>createdAt\<close>) and draws \<open>rnd\<close>, the text of \<open>Math.random().toString(36).slice(2)\<close>.
  The object literal lists \<open>id\<close>, \<open>createdAt\<close> and \<open>retryCount\<close> first and spreads
  \<open>...req\<close> last, so a field that \<open>req\<close> carries replaces the generated one.
\<close>

definition enqueue :: "nat \<Rightarrow> string \<Rightarrow> nat \<Rightarrow> operation \<Rightarrow> world \<Rightarrow> world" where
  "enqueue now1 rnd now2 req w =
     (let q = loadQueue (lf w);
          item = \<lparr>id' = (case op_id req of
                           None \<Rightarrow> decimal now1 @ ''-'' @ rnd
                         | Some carried \<Rightarrow> carried),
                  url = op_url req,
                  method' = op_method req,
                  headers = op_headers req,
                  body = op_body req,
                  createdAt = (case op_createdAt req of
                                 None \<Rightarrow> now2
                               | Some carried \<Rightarrow> carried),
                  retryCount = (case op_retryCount req of
                                  None \<Rightarrow> 0
                                | Some carried \<Rightarrow> carried)\<rparr>
      in w\<lparr>lf := saveQueue (q @ [item]) (lf w)\<rparr>)"

subsection \<open>The sync pass\<close>

definition backoffTime :: "nat \<Rightarrow> nat" where
  "backoffTime rc = (if rc > 0 then min (1000 * 2 ^ (rc - 1)) 30000 else 0)"

definition ok :: "nat \<Rightarrow> bool" where
  "ok status = (200 \<le> status \<and> status \<le> 299)"

text \<open>\<open>s.split(c)\<close> for a one-character separator.\<close>

fun split :: "char \<Rightarrow> string \<Rightarrow> string list" where
  "split c [] = [[]]"
| "split c (x # xs) =
     (if x = c then [] # split c xs
      else (case split c xs of
              [] \<Rightarrow> [[x]]
            | w # ws \<Rightarrow> (x # w) # ws))"

text \<open>\<open>urlPath.split('/').filter(Boolean)[1]\<close>; \<open>None\<close> is \<open>undefined\<close>.\<close>

definition resourceType :: "string \<Rightarrow> string option" where
  "resourceType urlPath =
     (case filter (\<lambda>s. s \<noteq> []) (split CHR ''/'' urlPath) of
        a # r # rest \<Rightarrow> Some r
      | _ \<Rightarrow> None)"

text \<open>
  The loop over \<open>cacheKeys\<close> (lines 138 to 142), on the key list read before it. The
  first component says whether a \<open>removeItem\<close> rejected, which ends the loop.
\<close>

fun remove_matching ::
  "(string \<Rightarrow> bool) \<Rightarrow> string \<Rightarrow> string list \<Rightarrow> localforage \<Rightarrow> bool \<times> localforage" where
  "remove_matching rejects rt [] st = (False, st)"
| "remove_matching rejects rt (key # ks) st =
     (if sublist rt key \<and> prefix CACHE_PREFIX key
      then (if rejects key then (True, st)
            else remove_matching rejects rt ks (removeItem key st))
      else remove_matching rejects rt ks st)"

text \<open>
  Lines 131 to 143, after \<open>processed++\<close>: the \<open>URL\<close> constructor, the resource type,
  \<open>localforage.keys()\<close> and the loop. The first component says whether one of them
  threw.
\<close>

definition invalidate_caches ::
  "env \<Rightarrow> nat \<Rightarrow> QueuedRequest \<Rightarrow> localforage \<Rightarrow> bool \<times> localforage" where
  "invalidate_caches env i item st =
     (case pathname env (url item) of
        None \<Rightarrow> (True, st)
      | Some urlPath \<Rightarrow>
          (case resourceType urlPath of
             None \<Rightarrow> (False, st)
           | Some rt \<Rightarrow>
               if keys_rejects env i then (True, st)
               else remove_matching (remove_rejects env i) rt (keys st) st))"

text \<open>Lines 121 to 127, and again 149 to 155: count the failure, keep the item up to five.\<close>

definition keep_for_retry :: "QueuedRequest \<Rightarrow> pass \<Rightarrow> QueuedRequest option \<times> pass" where
  "keep_for_retry item s =
     (let item' = item\<lparr>retryCount := retryCount item + 1\<rparr>
      in if retryCount item' \<le> 5 then (Some item', s)
         else (None, s\<lparr>failed := failed s + 1\<rparr>))"

text \<open>
  The first half of the body of \<open>batch.map(async (item) => ...)\<close>, lines 98 to 112: the
  item at position \<open>i\<close> waits its backoff and sends its request.
\<close>

definition start_item :: "nat \<times> QueuedRequest \<Rightarrow> pass \<Rightarrow> pass" where
  "start_item p s =
     s\<lparr>trace := trace s @ [Started (fst p) (backoffTime (retryCount (snd p)))]\<rparr>"

text \<open>
  The second half, lines 114 to 156, from the answer on. A throw after \<open>processed++\<close>
  is caught by the same \<open>catch\<close> as a throw of \<open>fetch\<close>.
\<close>

definition run_item :: "env \<Rightarrow> nat \<times> QueuedRequest \<Rightarrow> pass \<Rightarrow> QueuedRequest option \<times> pass" where
  "run_item env p s =
     (case fetch env (fst p) of
        NetworkError \<Rightarrow> keep_for_retry (snd p) s
      | Response status \<Rightarrow>
          if \<not> ok status then
            (if status \<ge> 400 \<and> status < 500 then (None, s\<lparr>failed := failed s + 1\<rparr>)
             else keep_for_retry (snd p) s)
          else
            (let s1 = s\<lparr>processed := processed s + 1\<rparr>;
                 cleared = invalidate_caches env (fst p) (snd p) (store s1);
                 s2 = s1\<lparr>store := snd cleared\<rparr>
             in if fst cleared then keep_for_retry (snd p) s2 else (None, s2)))"

text \<open>The promise of the item settles with what its body returned.\<close>

definition settle_item ::
  "env \<Rightarrow> nat \<times> QueuedRequest \<Rightarrow> pass \<Rightarrow> QueuedRequest option \<times> pass" where
  "settle_item env p s =
     (let (r, s1) = run_item env p s
      in (r, s1\<lparr>trace := trace s1 @ [Settled (fst p)]\<rparr>))"

text \<open>\<open>await Promise.all(batchPromises)\<close>: the results in the order of the batch.\<close>

fun run_items ::
  "env \<Rightarrow> (nat \<times> QueuedRequest) list \<Rightarrow> pass \<Rightarrow> QueuedRequest option list \<times> pass" where
  "run_items env [] s = ([], s)"
| "run_items env (p # ps) s =
     (let (r, s1) = settle_item env p s;
          (rs, s2) = run_items env ps s1
      in (r # rs, s2))"

text \<open>\<open>results.filter(Boolean)\<close>.\<close>

fun somes :: "'a option list \<Rightarrow> 'a list" where
  "somes [] = []"
| "somes (None # rs) = somes rs"
| "somes (Some x # rs) = x # somes rs"

text \<open>
  One round of \<open>for (const batch of batches)\<close>: \<open>batch.map\<close> starts every item, the
  \<open>await\<close> lets every item settle, the survivors are pushed.
\<close>

definition run_batch :: "env \<Rightarrow> (nat \<times> QueuedRequest) list \<Rightarrow> pass \<Rightarrow> pass" where
  "run_batch env batch s =
     (let s1 = fold start_item batch s;
          (results, s2) = run_items env batch s1
      in s2\<lparr>remaining := remaining s2 @ somes results\<rparr>)"

text \<open>\<open>for (let i = 0; i < q.length; i += batchSize) batches.push(q.slice(i, i + batchSize))\<close>.\<close>

definition batchSize :: nat where
  "batchSize = 3"

function mk_batches :: "nat \<Rightarrow> 'a list \<Rightarrow> 'a list list" where
  "mk_batches i q =
     (if i < length q then take batchSize (drop i q) # mk_batches (i + batchSize) q else [])"
  by pat_completeness auto
termination
  by (relation "measure (\<lambda>(i, q). length q - i)") (auto simp: batchSize_def)

declare mk_batches.simps [simp del]

definition no_op :: sync_result where
  "no_op = \<lparr>res_processed = 0, res_failed = 0, res_remaining = 0\<rparr>"

definition processQueue :: "env \<Rightarrow> world \<Rightarrow> sync_result \<times> world" where
  "processQueue env w =
     (if \<not> isOnline w then (no_op, w)
      else
        let q = loadQueue (lf w) in
        if q = [] then (no_op, w)
        else
          let s = fold (run_batch env) (mk_batches 0 (enumerate 0 q))
                    \<lparr>remaining = [], processed = 0, failed = 0,
                     store = lf w, trace = events w\<rparr>
          in (\<lparr>res_processed = processed s, res_failed = failed s,
               res_remaining = length (remaining s)\<rparr>,
              w\<lparr>lf := saveQueue (remaining s) (store s), events := trace s\<rparr>))"

subsection \<open>Repeated passes\<close>

text \<open>
  The scheduler calls \<open>processQueue\<close> again and again (\<open>attemptSync\<close>); \<open>sync_passes\<close>
  runs one pass for each environment in the list, each on the world the pass before
  left, and collects the results.
\<close>

fun sync_passes :: "env list \<Rightarrow> world \<Rightarrow> sync_result list \<times> world" where
  "sync_passes [] w = ([], w)"
| "sync_passes (env # envs) w =
     (let (r, w1) = processQueue env w;
          (rs, w2) = sync_passes envs w1
      in (r # rs, w2))"

subsection \<open>How an item ends\<close>

text \<open>
  The four ways the body of an item can end, for the store \<open>st\<close> it finds: the request
  was accepted (2xx) and the caches were cleared; the server refused it (4xx); it is to
  be retried (another status, or a throw before any response); it was accepted and then
  the clearing of the caches threw.
\<close>

datatype ending = Done | Refused | Retry | Broke

definition ending_of :: "env \<Rightarrow> nat \<times> QueuedRequest \<Rightarrow> localforage \<Rightarrow> ending" where
  "ending_of env p st =
     (case fetch env (fst p) of
        NetworkError \<Rightarrow> Retry
      | Response status \<Rightarrow>
          if 200 \<le> status \<and> status \<le> 299
          then (if fst (invalidate_caches env (fst p) (snd p) st) then Broke else Done)
          else if 400 \<le> status \<and> status \<le> 499 then Refused
          else Retry)"

text \<open>The store the item leaves: only an accepted request touches it.\<close>

definition store_after :: "env \<Rightarrow> nat \<times> QueuedRequest \<Rightarrow> localforage \<Rightarrow> localforage" where
  "store_after env p st =
     (case fetch env (fst p) of
        NetworkError \<Rightarrow> st
      | Response status \<Rightarrow>
          if 200 \<le> status \<and> status \<le> 299
          then snd (invalidate_caches env (fst p) (snd p) st)
          else st)"

text \<open>The endings of the items of a numbered queue, each on the store its predecessors left.\<close>

fun endings :: "env \<Rightarrow> (nat \<times> QueuedRequest) list \<Rightarrow> localforage \<Rightarrow> ending list" where
  "endings env [] st = []"
| "endings env (p # ps) st = ending_of env p st # endings env ps (store_after env p st)"

text \<open>An item goes through the retry logic when its request failed or its clearing threw.\<close>

definition retried :: "ending \<Rightarrow> bool" where
  "retried e = (e = Retry \<or> e = Broke)"

text \<open>It is kept when its incremented count is at most 5, and counted as failed otherwise.\<close>

definition kept :: "(nat \<times> QueuedRequest) \<times> ending \<Rightarrow> bool" where
  "kept pe = (retried (snd pe) \<and> retryCount (snd (fst pe)) + 1 \<le> 5)"

definition exhausted :: "(nat \<times> QueuedRequest) \<times> ending \<Rightarrow> bool" where
  "exhausted pe = (retried (snd pe) \<and> 5 < retryCount (snd (fst pe)) + 1)"

text \<open>It is counted as failed when it was refused or has run out of retries.\<close>

definition lost :: "(nat \<times> QueuedRequest) \<times> ending \<Rightarrow> bool" where
  "lost pe = (snd pe = Refused \<or> exhausted pe)"

definition bump :: "QueuedRequest \<Rightarrow> QueuedRequest" where
  "bump item = item\<lparr>retryCount := retryCount item + 1\<rparr>"

text \<open>The items that are kept, in order, each with one more retry.\<close>

definition survivors :: "env \<Rightarrow> (nat \<times> QueuedRequest) list \<Rightarrow> localforage \<Rightarrow> QueuedRequest list" where
  "survivors env ps st = map (\<lambda>pe. bump (snd (fst pe))) (filter kept (zip ps (endings env ps st)))"

text \<open>A 2xx answer; a status of 500 or more, or a throw before any response.\<close>

definition accepted :: "outcome \<Rightarrow> bool" where
  "accepted out = (case out of NetworkError \<Rightarrow> False | Response status \<Rightarrow> ok status)"

definition failing :: "outcome \<Rightarrow> bool" where
  "failing out = (case out of NetworkError \<Rightarrow> True | Response status \<Rightarrow> 500 \<le> status)"

text \<open>The events of one batch: every item starts, then every item settles.\<close>

definition started :: "nat \<times> QueuedRequest \<Rightarrow> event" where
  "started p = Started (fst p) (backoffTime (retryCount (snd p)))"

definition batch_events :: "(nat \<times> QueuedRequest) list \<Rightarrow> event list" where
  "batch_events b = map started b @ map (\<lambda>p. Settled (fst p)) b"

text \<open>The waits among the events, in order.\<close>

fun waits :: "event list \<Rightarrow> nat list" where
  "waits [] = []"
| "waits (Started i ms # es) = ms # waits es"
| "waits (Settled i # es) = waits es"

text \<open>The sizes of the batches of a queue of \<open>n\<close> items: threes, then the remainder.\<close>

definition batch_sizes :: "nat \<Rightarrow> nat list" where
  "batch_sizes n = replicate (n div 3) 3 @ (if n mod 3 = 0 then [] else [n mod 3])"

subsection \<open>Examples\<close>

definition item0 :: QueuedRequest where
  "item0 = \<lparr>id' = ''1-a'', url = ''/api/users/7'', method' = POST, headers = [],
            body = None, createdAt = 1, retryCount = 0\<rparr>"

definition pass0 :: pass where
  "pass0 = \<lparr>remaining = [], processed = 0, failed = 0, store = [], trace = []\<rparr>"

definition world0 :: "bool \<Rightarrow> QueuedRequest list \<Rightarrow> world" where
  "world0 on q = \<lparr>navigator_onLine = Some on, auth_token = None,
                  lf = [(QUEUE_KEY, QueueVal q)], events = []\<rparr>"

text \<open>A session that holds the credential \<open>tok\<close>, with an empty store.\<close>

definition session :: "string option \<Rightarrow> world" where
  "session tok = \<lparr>navigator_onLine = Some True, auth_token = tok, lf = [], events = []\<rparr>"

text \<open>A world with one queued item and one cached read of \<open>/api/users\<close>.\<close>

definition users_key :: string where
  "users_key = cacheKeyFor (session None) ''/api/users''"

definition world1 :: world where
  "world1 = \<lparr>navigator_onLine = Some True, auth_token = None,
             lf = [(QUEUE_KEY, QueueVal [item0]), (users_key, CacheVal 1 ''[]'')],
             events = []\<rparr>"

text \<open>
  A platform on which nothing but \<open>fetch\<close> can throw, with the answers \<open>f\<close>; the URLs
  of the examples are paths. The same platform with a store whose \<open>keys()\<close> rejects.
\<close>

definition calm :: "(nat \<Rightarrow> outcome) \<Rightarrow> env" where
  "calm f = \<lparr>pathname = Some, fetch = f, keys_rejects = (\<lambda>i. False),
             remove_rejects = (\<lambda>i key. False)\<rparr>"

definition keys_down :: "(nat \<Rightarrow> outcome) \<Rightarrow> env" where
  "keys_down f = \<lparr>pathname = Some, fetch = f, keys_rejects = (\<lambda>i. True),
                  remove_rejects = (\<lambda>i key. False)\<rparr>"

text \<open>An operation that carries the four fields only.\<close>

definition op0 :: operation where
  "op0 = \<lparr>op_url = ''/api/users'', op_method = POST, op_headers = [], op_body = None,
          op_id = None, op_createdAt = None, op_retryCount = None\<rparr>"

section \<open>Properties\<close>

subsection \<open>One item and one batch of settlements\<close>

lemma run_item_ending:
  "run_item env p s =
     (case ending_of env p (store s) of
        Done \<Rightarrow> (None, s\<lparr>processed := processed s + 1, store := store_after env p (store s)\<rparr>)
      | Refused \<Rightarrow> (None, s\<lparr>failed := failed s + 1\<rparr>)
      | Retry \<Rightarrow> keep_for_retry (snd p) s
      | Broke \<Rightarrow> keep_for_retry (snd p)
                   (s\<lparr>processed := processed s + 1, store := store_after env p (store s)\<rparr>))"
  by (cases "fetch env (fst p)")
     (auto simp: run_item_def ending_of_def store_after_def ok_def Let_def)

lemma accepted_ending:
  "accepted (fetch env (fst p)) = (ending_of env p st = Done \<or> ending_of env p st = Broke)"
  by (cases "fetch env (fst p)") (auto simp: accepted_def ending_of_def ok_def)

lemma settle_item_fst:
  "fst (settle_item env p s) =
     (if kept (p, ending_of env p (store s)) then Some (bump (snd p)) else None)"
  by (cases "ending_of env p (store s)")
     (auto simp: settle_item_def split_beta run_item_ending keep_for_retry_def kept_def
        retried_def bump_def Let_def)

lemma settle_item_processed:
  "processed (snd (settle_item env p s)) =
     processed s + (if accepted (fetch env (fst p)) then 1 else 0)"
  by (cases "ending_of env p (store s)")
     (auto simp: settle_item_def split_beta run_item_ending keep_for_retry_def
        accepted_ending [where st = "store s"] Let_def)

lemma settle_item_failed:
  "failed (snd (settle_item env p s)) =
     failed s + (if lost (p, ending_of env p (store s)) then 1 else 0)"
  by (cases "ending_of env p (store s)")
     (auto simp: settle_item_def split_beta run_item_ending keep_for_retry_def lost_def
        exhausted_def retried_def Let_def)

lemma settle_item_store:
  "store (snd (settle_item env p s)) = store_after env p (store s)"
proof (cases "fetch env (fst p)")
  case (Response status)
  then show ?thesis
    by (cases "ending_of env p (store s)")
       (auto simp: settle_item_def split_beta run_item_ending keep_for_retry_def Let_def
          ending_of_def store_after_def split: if_splits)
next
  case NetworkError
  then show ?thesis
    by (simp add: settle_item_def split_beta run_item_def keep_for_retry_def Let_def
          store_after_def)
qed

lemma settle_item_trace:
  "trace (snd (settle_item env p s)) = trace s @ [Settled (fst p)]"
  by (cases "ending_of env p (store s)")
     (auto simp: settle_item_def split_beta run_item_ending keep_for_retry_def Let_def)

lemma settle_item_remaining:
  "remaining (snd (settle_item env p s)) = remaining s"
  by (cases "ending_of env p (store s)")
     (auto simp: settle_item_def split_beta run_item_ending keep_for_retry_def Let_def)

lemma run_items_fst:
  "somes (fst (run_items env ps s)) = survivors env ps (store s)"
  by (induction ps arbitrary: s)
     (simp_all add: survivors_def split_beta settle_item_fst settle_item_store)

lemma run_items_processed:
  "processed (snd (run_items env ps s)) =
     processed s + length (filter (\<lambda>p. accepted (fetch env (fst p))) ps)"
  by (induction ps arbitrary: s) (simp_all add: split_beta settle_item_processed)

lemma run_items_failed:
  "failed (snd (run_items env ps s)) =
     failed s + length (filter lost (zip ps (endings env ps (store s))))"
  by (induction ps arbitrary: s)
     (simp_all add: split_beta settle_item_failed settle_item_store)

lemma run_items_store:
  "store (snd (run_items env ps s)) = fold (store_after env) ps (store s)"
  by (induction ps arbitrary: s) (simp_all add: split_beta settle_item_store)

lemma run_items_trace:
  "trace (snd (run_items env ps s)) = trace s @ map (\<lambda>p. Settled (fst p)) ps"
  by (induction ps arbitrary: s) (simp_all add: split_beta settle_item_trace)

lemma run_items_remaining:
  "remaining (snd (run_items env ps s)) = remaining s"
  by (induction ps arbitrary: s) (simp_all add: split_beta settle_item_remaining)

subsection \<open>Batches and the whole pass\<close>

lemma length_endings: "length (endings env ps st) = length ps"
  by (induction ps arbitrary: st) simp_all

lemma endings_append:
  "endings env (xs @ ys) st = endings env xs st @ endings env ys (fold (store_after env) xs st)"
  by (induction xs arbitrary: st) simp_all

lemma zip_endings_append:
  "zip (xs @ ys) (endings env (xs @ ys) st) =
     zip xs (endings env xs st) @ zip ys (endings env ys (fold (store_after env) xs st))"
  by (simp add: endings_append length_endings)

lemma survivors_append:
  "survivors env (xs @ ys) st =
     survivors env xs st @ survivors env ys (fold (store_after env) xs st)"
  by (simp add: survivors_def zip_endings_append)

lemma survivors_Nil: "survivors env [] st = []"
  by (simp add: survivors_def)

lemma fold_start_item:
  "fold start_item b s = s\<lparr>trace := trace s @ map started b\<rparr>"
  by (induction b arbitrary: s) (simp_all add: start_item_def started_def)

lemma run_batch_remaining:
  "remaining (run_batch env b s) = remaining s @ survivors env b (store s)"
  by (simp add: run_batch_def Let_def split_beta run_items_fst run_items_remaining fold_start_item)

lemma run_batch_processed:
  "processed (run_batch env b s) =
     processed s + length (filter (\<lambda>p. accepted (fetch env (fst p))) b)"
  by (simp add: run_batch_def Let_def split_beta run_items_processed fold_start_item)

lemma run_batch_failed:
  "failed (run_batch env b s) =
     failed s + length (filter lost (zip b (endings env b (store s))))"
  by (simp add: run_batch_def Let_def split_beta run_items_failed fold_start_item)

lemma run_batch_store:
  "store (run_batch env b s) = fold (store_after env) b (store s)"
  by (simp add: run_batch_def Let_def split_beta run_items_store fold_start_item)

lemma run_batch_trace:
  "trace (run_batch env b s) = trace s @ batch_events b"
  by (simp add: run_batch_def Let_def split_beta run_items_trace fold_start_item batch_events_def)

lemma batches_store:
  "store (fold (run_batch env) bs s) = fold (store_after env) (concat bs) (store s)"
  by (induction bs arbitrary: s) (simp_all add: run_batch_store)

lemma batches_remaining:
  "remaining (fold (run_batch env) bs s) = remaining s @ survivors env (concat bs) (store s)"
  by (induction bs arbitrary: s)
     (simp_all add: run_batch_remaining run_batch_store survivors_append survivors_Nil)

lemma batches_processed:
  "processed (fold (run_batch env) bs s) =
     processed s + length (filter (\<lambda>p. accepted (fetch env (fst p))) (concat bs))"
  by (induction bs arbitrary: s) (simp_all add: run_batch_processed)

lemma batches_failed:
  "failed (fold (run_batch env) bs s) =
     failed s + length (filter lost (zip (concat bs) (endings env (concat bs) (store s))))"
  by (induction bs arbitrary: s)
     (simp_all add: run_batch_failed run_batch_store zip_endings_append)

lemma batches_trace:
  "trace (fold (run_batch env) bs s) = trace s @ concat (map batch_events bs)"
  by (induction bs arbitrary: s) (simp_all add: run_batch_trace)

lemma concat_mk_batches: "concat (mk_batches i q) = drop i q"
proof (induction i q rule: mk_batches.induct)
  case (1 i q)
  show ?case
  proof (cases "i < length q")
    case True
    have "take batchSize (drop i q) @ drop (i + batchSize) q = drop i q"
      by (metis add.commute append_take_drop_id drop_drop)
    with True "1.IH" show ?thesis
      by (subst mk_batches.simps) simp
  next
    case False
    then show ?thesis
      by (subst mk_batches.simps) simp
  qed
qed

lemma concat_batches_all: "concat (mk_batches 0 ps) = ps"
  by (simp add: concat_mk_batches)

lemma loadQueue_saveQueue: "loadQueue (saveQueue q st) = q"
  by (simp add: loadQueue_def saveQueue_def getItem_def setItem_def update_conv')

lemma getItem_saveQueue:
  "getItem (saveQueue q st) k = (if k = QUEUE_KEY then Some (QueueVal q) else getItem st k)"
  by (simp add: saveQueue_def getItem_def setItem_def update_conv')

lemma processQueue_online:
  assumes on: "isOnline w" and q: "loadQueue (lf w) = q" and ne: "q \<noteq> []"
  shows "processQueue env w =
    (\<lparr>res_processed = length (filter (\<lambda>p. accepted (fetch env (fst p))) (enumerate 0 q)),
      res_failed = length (filter lost (zip (enumerate 0 q) (endings env (enumerate 0 q) (lf w)))),
      res_remaining = length (survivors env (enumerate 0 q) (lf w))\<rparr>,
     w\<lparr>lf := saveQueue (survivors env (enumerate 0 q) (lf w))
                (fold (store_after env) (enumerate 0 q) (lf w)),
       events := events w @ concat (map batch_events (mk_batches 0 (enumerate 0 q)))\<rparr>)"
proof -
  define s0 where "s0 = \<lparr>remaining = [], processed = 0, failed = 0,
                     store = lf w, trace = events w\<rparr>"
  define s where "s = fold (run_batch env) (mk_batches 0 (enumerate 0 q)) s0"
  have pq: "processQueue env w =
      (\<lparr>res_processed = processed s, res_failed = failed s,
               res_remaining = length (remaining s)\<rparr>,
              w\<lparr>lf := saveQueue (remaining s) (store s), events := trace s\<rparr>)"
    unfolding processQueue_def s_def s0_def using on q ne by (simp add: Let_def)
  have 1: "remaining s = survivors env (enumerate 0 q) (lf w)"
    unfolding s_def by (simp add: batches_remaining concat_batches_all s0_def)
  have 2: "processed s = length (filter (\<lambda>p. accepted (fetch env (fst p))) (enumerate 0 q))"
    unfolding s_def by (simp add: batches_processed concat_batches_all s0_def)
  have 3: "failed s = length (filter lost (zip (enumerate 0 q) (endings env (enumerate 0 q) (lf w))))"
    unfolding s_def by (simp add: batches_failed concat_batches_all s0_def)
  have 4: "store s = fold (store_after env) (enumerate 0 q) (lf w)"
    unfolding s_def by (simp add: batches_store concat_batches_all s0_def)
  have 5: "trace s = events w @ concat (map batch_events (mk_batches 0 (enumerate 0 q)))"
    unfolding s_def by (simp add: batches_trace s0_def)
  show ?thesis
    unfolding pq 1 2 3 4 5 ..
qed

lemma processQueue_offline: "\<not> isOnline w \<Longrightarrow> processQueue env w = (no_op, w)"
  by (simp add: processQueue_def)

lemma processQueue_empty: "loadQueue (lf w) = [] \<Longrightarrow> processQueue env w = (no_op, w)"
  by (simp add: processQueue_def)

lemma isOnline_after_pass: "isOnline (snd (processQueue env w)) = isOnline w"
  by (simp add: processQueue_def Let_def isOnline_def)

lemma persisted_after_pass:
  assumes "isOnline w" and "loadQueue (lf w) = q" and "q \<noteq> []"
  shows "getItem (lf (snd (processQueue env w))) QUEUE_KEY =
           Some (QueueVal (survivors env (enumerate 0 q) (lf w)))"
  by (simp add: processQueue_online [OF assms] getItem_saveQueue)

lemma loadQueue_after_pass:
  assumes "isOnline w" and "loadQueue (lf w) = q" and "q \<noteq> []"
  shows "loadQueue (lf (snd (processQueue env w))) = survivors env (enumerate 0 q) (lf w)"
  by (simp add: processQueue_online [OF assms] loadQueue_saveQueue)

subsection \<open>Endings by position\<close>

lemma endings_nth:
  "k < length ps \<Longrightarrow>
     endings env ps st ! k = ending_of env (ps ! k) (fold (store_after env) (take k ps) st)"
proof (induction ps arbitrary: k st)
  case Nil
  then show ?case by simp
next
  case (Cons p ps)
  then show ?case by (cases k) simp_all
qed

lemma ending_refused:
  "fetch env (fst p) = Response status \<Longrightarrow> 400 \<le> status \<Longrightarrow> status \<le> 499 \<Longrightarrow>
     ending_of env p st = Refused"
  by (simp add: ending_of_def)

lemma ending_failing: "failing (fetch env (fst p)) \<Longrightarrow> ending_of env p st = Retry"
  by (cases "fetch env (fst p)") (auto simp: failing_def ending_of_def)

lemma in_zip_endings:
  assumes "pe \<in> set (zip (enumerate 0 q) (endings env (enumerate 0 q) st))"
  shows "fst (fst pe) < length q \<and>
         pe = ((fst (fst pe), q ! fst (fst pe)),
               ending_of env (fst (fst pe), q ! fst (fst pe))
                 (fold (store_after env) (take (fst (fst pe)) (enumerate 0 q)) st))"
proof -
  from assms obtain k where k: "k < length q"
    and pe: "pe = (enumerate 0 q ! k, endings env (enumerate 0 q) st ! k)"
    by (auto simp: in_set_zip length_endings)
  have "enumerate 0 q ! k = (k, q ! k)"
    using k by (simp add: nth_enumerate_eq)
  then show ?thesis
    using k pe by (simp add: endings_nth)
qed

lemma zip_endings_nth:
  assumes "i < length q"
  shows "zip (enumerate 0 q) (endings env (enumerate 0 q) st) ! i =
           ((i, q ! i), ending_of env (i, q ! i)
                          (fold (store_after env) (take i (enumerate 0 q)) st))"
  using assms by (simp add: length_endings endings_nth nth_enumerate_eq)

lemma skip_position:
  assumes "\<And>st'. \<not> P ((i, q ! i), ending_of env (i, q ! i) st')"
  shows "filter P (zip (enumerate 0 q) (endings env (enumerate 0 q) st)) =
         filter (\<lambda>pe. fst (fst pe) \<noteq> i \<and> P pe) (zip (enumerate 0 q) (endings env (enumerate 0 q) st))"
proof (rule filter_cong [OF refl])
  fix pe
  assume "pe \<in> set (zip (enumerate 0 q) (endings env (enumerate 0 q) st))"
  from in_zip_endings [OF this] assms
  show "P pe = (fst (fst pe) \<noteq> i \<and> P pe)"
    by (metis)
qed

lemma filter_nth_position:
  assumes "i < length zs" and "P (zs ! i)"
  shows "length (filter P (take i zs)) < length (filter P zs)"
    and "filter P zs ! length (filter P (take i zs)) = zs ! i"
proof -
  have zs: "zs = take i zs @ zs ! i # drop (Suc i) zs"
    using assms(1) by (rule id_take_nth_drop)
  have f: "filter P zs = filter P (take i zs) @ zs ! i # filter P (drop (Suc i) zs)"
    using assms(2) by (subst zs) simp
  show "length (filter P (take i zs)) < length (filter P zs)"
    by (subst f) simp
  show "filter P zs ! length (filter P (take i zs)) = zs ! i"
    by (subst f) (simp add: nth_append)
qed

lemma filter_pos:
  assumes "i < length zs" and "P (zs ! i)"
  shows "0 < length (filter P zs)"
  using filter_nth_position(1) [of i zs P] assms by (cases "filter P zs") auto

lemma accounting:
  "length (filter (\<lambda>p. accepted (fetch env (fst p))) ps)
   + length (filter lost (zip ps (endings env ps st)))
   + length (filter kept (zip ps (endings env ps st)))
   = length ps + length (filter (\<lambda>e. e = Broke) (endings env ps st))"
proof (induction ps arbitrary: st)
  case Nil
  show ?case by simp
next
  case (Cons p ps)
  show ?case
    using Cons.IH [of "store_after env p st"]
    by (cases "ending_of env p st")
       (auto simp: accepted_ending [where st = st] lost_def kept_def exhausted_def retried_def)
qed

lemma endings_all_failing:
  "list_all (\<lambda>p. failing (fetch env (fst p))) ps \<Longrightarrow>
     endings env ps st = replicate (length ps) Retry"
  by (induction ps arbitrary: st) (simp_all add: ending_failing)

lemma failing_not_accepted: "failing out \<Longrightarrow> \<not> accepted out"
  by (cases out) (auto simp: failing_def accepted_def ok_def)

subsection \<open>Platforms that do not throw, waits\<close>

lemma remove_matching_calm: "fst (remove_matching (\<lambda>key. False) rt ks st) = False"
  by (induction ks arbitrary: st) simp_all

lemma calm_clears: "fst (invalidate_caches (calm f) i item st) = False"
  by (simp add: invalidate_caches_def calm_def remove_matching_calm split: option.splits)

lemma calm_not_broke: "ending_of (calm f) p st \<noteq> Broke"
  by (cases "fetch (calm f) (fst p)") (auto simp: ending_of_def calm_clears)

lemma calm_endings: "list_all (\<lambda>e. e \<noteq> Broke) (endings (calm f) ps st)"
  by (induction ps arbitrary: st) (simp_all add: calm_not_broke)

lemma fetch_calm: "fetch (calm f) = f"
  by (simp add: calm_def)

lemma isOnline_world0: "isOnline (world0 on q) = on"
  by (simp add: isOnline_def world0_def)

lemma loadQueue_world0: "loadQueue (lf (world0 on q)) = q"
  by (simp add: loadQueue_def getItem_def world0_def)

lemma events_world0: "events (world0 on q) = []"
  by (simp add: world0_def)

lemma retryCount_item0: "retryCount item0 = 0"
  by (simp add: item0_def)

lemma waits_append: "waits (xs @ ys) = waits xs @ waits ys"
  by (induction xs rule: waits.induct) simp_all

lemma waits_batch_events: "waits (batch_events b) = map (\<lambda>p. backoffTime (retryCount (snd p))) b"
proof -
  have "waits (map started b @ es) = map (\<lambda>p. backoffTime (retryCount (snd p))) b @ waits es" for es
    by (induction b) (simp_all add: started_def)
  moreover have "waits (map (\<lambda>p. Settled (fst p)) b) = []"
    by (induction b) simp_all
  ultimately show ?thesis
    by (simp add: batch_events_def)
qed

lemma waits_batches:
  "waits (concat (map batch_events bs)) = map (\<lambda>p. backoffTime (retryCount (snd p))) (concat bs)"
  by (induction bs) (simp_all add: waits_append waits_batch_events)

lemma backoff_values: "map backoffTime [0, 1, 2, 3, 4, 5] = [0, 1000, 2000, 4000, 8000, 16000]"
  by (simp add: backoffTime_def)

subsection \<open>Batch sizes\<close>

lemma batch_sizes_step: "3 \<le> n \<Longrightarrow> batch_sizes n = 3 # batch_sizes (n - 3)"
proof -
  assume "3 \<le> n"
  then have "n div 3 = Suc ((n - 3) div 3)" and "n mod 3 = (n - 3) mod 3"
    by (simp_all add: le_div_geq le_mod_geq)
  then show ?thesis
    by (simp add: batch_sizes_def)
qed

lemma batch_sizes_small: "0 < n \<Longrightarrow> n < 3 \<Longrightarrow> batch_sizes n = [n]"
  by (simp add: batch_sizes_def)

lemma batch_sizes_0: "batch_sizes 0 = []"
  by (simp add: batch_sizes_def)

lemma lengths_mk_batches: "map length (mk_batches i q) = batch_sizes (length q - i)"
proof (induction i q rule: mk_batches.induct)
  case (1 i q)
  show ?case
  proof (cases "i < length q")
    case True
    note IH = "1.IH" [OF True]
    show ?thesis
    proof (cases "3 \<le> length q - i")
      case True
      with \<open>i < length q\<close> IH show ?thesis
        by (subst mk_batches.simps) (simp add: batchSize_def batch_sizes_step)
    next
      case False
      with \<open>i < length q\<close> IH show ?thesis
        by (subst mk_batches.simps) (simp add: batchSize_def batch_sizes_small batch_sizes_0)
    qed
  next
    case False
    then show ?thesis
      by (subst mk_batches.simps) (simp add: batch_sizes_0)
  qed
qed

lemma length_batch_sizes: "length (batch_sizes n) = (n + 2) div 3"
  by (simp add: batch_sizes_def) presburger

lemma count_accepted_positions:
  "length (filter (\<lambda>p. accepted (fetch env (fst p))) (enumerate 0 q)) =
   length (filter (\<lambda>i. accepted (fetch env i)) [0..<length q])"
proof -
  have "length (filter (\<lambda>p. P (fst p)) xs) = length (filter P (map fst xs))"
    for P :: "nat \<Rightarrow> bool" and xs :: "(nat \<times> 'a) list"
    by (induction xs) simp_all
  from this [of "\<lambda>i. accepted (fetch env i)" "enumerate 0 q"] show ?thesis
    by simp
qed

lemma mk_batches_seven:
  "mk_batches 0 [a, b, c, d, e, f, g] = [[a, b, c], [d, e, f], [g]]"
  by (simp add: mk_batches.simps batchSize_def)

subsection \<open>A queue whose requests all fail\<close>

lemma run_item_failing:
  assumes "failing (fetch env i)"
  shows "run_item env (i, item) s =
           (if retryCount item + 1 \<le> 5
            then (Some (item\<lparr>retryCount := retryCount item + 1\<rparr>), s)
            else (None, s\<lparr>failed := failed s + 1\<rparr>))"
  using ending_failing [of env "(i, item)" "store s"] assms
  by (simp add: run_item_ending keep_for_retry_def Let_def)

lemma positions_failing:
  "list_all (\<lambda>i. failing (fetch env i)) [0..<length q] \<Longrightarrow>
     list_all (\<lambda>p. failing (fetch env (fst p))) (enumerate 0 q)"
proof -
  assume "list_all (\<lambda>i. failing (fetch env i)) [0..<length q]"
  then have "list_all (\<lambda>i. failing (fetch env i)) (map fst (enumerate 0 q))"
    by simp
  then show ?thesis
    by (simp only: list_all_iff set_map ball_simps(9))
qed

lemma zip_replicate_filter:
  "filter P (zip xs (replicate (length xs) e)) =
     map (\<lambda>x. (x, e)) (filter (\<lambda>x. P (x, e)) xs)"
  by (induction xs) simp_all

lemma pass_all_failing:
  assumes on: "isOnline w" and q: "loadQueue (lf w) = q" and ne: "q \<noteq> []"
    and f: "list_all (\<lambda>i. failing (fetch env i)) [0..<length q]"
    and k: "list_all (\<lambda>item. retryCount item = k) q"
  shows "fst (processQueue env w) =
           (if k < 5 then \<lparr>res_processed = 0, res_failed = 0, res_remaining = length q\<rparr>
            else \<lparr>res_processed = 0, res_failed = length q, res_remaining = 0\<rparr>)"
    and "loadQueue (lf (snd (processQueue env w))) =
           (if k < 5 then map (\<lambda>item. item\<lparr>retryCount := Suc k\<rparr>) q else [])"
proof -
  let ?ps = "enumerate 0 q"
  have pf: "list_all (\<lambda>p. failing (fetch env (fst p))) ?ps"
    using f by (rule positions_failing)
  have es: "endings env ?ps (lf w) = replicate (length ?ps) Retry"
    using pf by (rule endings_all_failing)
  have rc: "retryCount (snd p) = k" if "p \<in> set ?ps" for p
  proof -
    from that have "snd p \<in> set (map snd ?ps)"
      by (rule imageI [where f = snd, of p "set ?ps", simplified set_map [symmetric]])
    then show ?thesis
      using k by (simp add: list_all_iff)
  qed
  have zr: "filter P (zip ?ps (replicate (length q) Retry)) =
              map (\<lambda>x. (x, Retry)) (filter (\<lambda>x. P (x, Retry)) ?ps)" for P
    using zip_replicate_filter [of P ?ps Retry] by simp
  have acc: "filter (\<lambda>p. accepted (fetch env (fst p))) ?ps = []"
    using pf by (simp add: filter_empty_conv list_all_iff failing_not_accepted)
  have kp: "filter (\<lambda>p. kept (p, Retry)) ?ps = (if k < 5 then ?ps else [])"
  proof (cases "k < 5")
    case True
    then have "\<forall>p \<in> set ?ps. kept (p, Retry)"
      using rc by (simp add: kept_def retried_def)
    with True show ?thesis by simp
  next
    case False
    then have "\<forall>p \<in> set ?ps. \<not> kept (p, Retry)"
      using rc by (simp add: kept_def retried_def)
    with False show ?thesis by (simp add: filter_empty_conv)
  qed
  have ls: "filter (\<lambda>p. lost (p, Retry)) ?ps = (if k < 5 then [] else ?ps)"
  proof (cases "k < 5")
    case True
    then have "\<forall>p \<in> set ?ps. \<not> lost (p, Retry)"
      using rc by (simp add: lost_def exhausted_def retried_def)
    with True show ?thesis by (simp add: filter_empty_conv)
  next
    case False
    then have "\<forall>p \<in> set ?ps. lost (p, Retry)"
      using rc by (simp add: lost_def exhausted_def retried_def)
    with False show ?thesis by simp
  qed
  have bm: "map bump q = map (\<lambda>item. item\<lparr>retryCount := Suc k\<rparr>) q"
    using k by (induction q) (simp_all add: bump_def)
  have sv: "survivors env ?ps (lf w) =
              (if k < 5 then map (\<lambda>item. item\<lparr>retryCount := Suc k\<rparr>) q else [])"
  proof -
    have "survivors env ?ps (lf w) = map (\<lambda>p. bump (snd p)) (filter (\<lambda>p. kept (p, Retry)) ?ps)"
      by (simp add: survivors_def es zr comp_def)
    also have "\<dots> = (if k < 5 then map bump (map snd ?ps) else [])"
      by (simp only: kp map_map comp_def if_distrib [of "map (\<lambda>p. bump (snd p))"] list.map)
    finally show ?thesis
      by (simp add: bm)
  qed
  have fl: "length (filter lost (zip ?ps (endings env ?ps (lf w)))) =
              (if k < 5 then 0 else length q)"
    by (simp add: es zr ls)
  show "fst (processQueue env w) =
           (if k < 5 then \<lparr>res_processed = 0, res_failed = 0, res_remaining = length q\<rparr>
            else \<lparr>res_processed = 0, res_failed = length q, res_remaining = 0\<rparr>)"
    by (simp add: processQueue_online [OF on q ne] acc fl sv)
  show "loadQueue (lf (snd (processQueue env w))) =
           (if k < 5 then map (\<lambda>item. item\<lparr>retryCount := Suc k\<rparr>) q else [])"
    by (simp add: loadQueue_after_pass [OF on q ne] sv)
qed

lemma sync_passes_idle:
  "loadQueue (lf w) = [] \<Longrightarrow> sync_passes envs w = (replicate (length envs) no_op, w)"
  by (induction envs) (simp_all add: processQueue_empty)

lemma sync_passes_append:
  "sync_passes (xs @ ys) w =
     (fst (sync_passes xs w) @ fst (sync_passes ys (snd (sync_passes xs w))),
      snd (sync_passes ys (snd (sync_passes xs w))))"
  by (induction xs arbitrary: w) (simp_all add: split_beta)

lemma retry_prefix:
  assumes "isOnline w" and "loadQueue (lf w) = q" and "q \<noteq> []"
    and "list_all (\<lambda>item. retryCount item = k) q"
    and "list_all (\<lambda>e. list_all (\<lambda>i. failing (fetch e i)) [0..<length q]) envs"
    and "k + length envs \<le> 5"
  shows "fst (sync_passes envs w) =
           replicate (length envs) \<lparr>res_processed = 0, res_failed = 0, res_remaining = length q\<rparr>
         \<and> loadQueue (lf (snd (sync_passes envs w))) =
             map (\<lambda>item. item\<lparr>retryCount := k + length envs\<rparr>) q
         \<and> isOnline (snd (sync_passes envs w))"
  using assms
proof (induction envs arbitrary: w q k)
  case Nil
  have "map (\<lambda>item. item\<lparr>retryCount := k\<rparr>) q = q"
    using Nil.prems(4) by (induction q) simp_all
  with Nil show ?case by simp
next
  case (Cons e envs)
  let ?w1 = "snd (processQueue e w)"
  let ?q1 = "map (\<lambda>item. item\<lparr>retryCount := Suc k\<rparr>) q"
  have lt: "k < 5"
    using Cons.prems(6) by simp
  have f: "list_all (\<lambda>i. failing (fetch e i)) [0..<length q]"
    using Cons.prems(5) by simp
  note p = pass_all_failing [OF Cons.prems(1,2,3) f Cons.prems(4)]
  have a: "isOnline ?w1"
    using Cons.prems(1) by (simp add: isOnline_after_pass)
  have b: "loadQueue (lf ?w1) = ?q1"
    using p(2) lt by simp
  have c: "?q1 \<noteq> []"
    using Cons.prems(3) by simp
  have d: "list_all (\<lambda>item. retryCount item = Suc k) ?q1"
    by (simp add: list_all_iff)
  have e: "list_all (\<lambda>e. list_all (\<lambda>i. failing (fetch e i)) [0..<length ?q1]) envs"
    using Cons.prems(5) by simp
  have g: "Suc k + length envs \<le> 5"
    using Cons.prems(6) by simp
  note IH = Cons.IH [OF a b c d e g]
  have m: "map (\<lambda>item. item\<lparr>retryCount := Suc k + length envs\<rparr>) ?q1 =
           map (\<lambda>item. item\<lparr>retryCount := k + length (e # envs)\<rparr>) q"
    by (simp add: comp_def)
  show ?case
    using IH p(1) lt unfolding m by (simp add: split_beta)
qed

subsection \<open>Identifiers, keys and the example worlds\<close>

lemma digit_in_digits: "digit n \<in> set ''0123456789''"
  unfolding digit_def by (rule nth_mem) simp

lemma digit_not_dash: "digit n \<noteq> CHR ''-''"
  using digit_in_digits [of n] by auto

lemma digit_inj: "digit a = digit b \<Longrightarrow> a mod 10 = b mod 10"
proof -
  assume "digit a = digit b"
  moreover have "distinct ''0123456789''"
    by simp
  moreover have "a mod 10 < length ''0123456789''" and "b mod 10 < length ''0123456789''"
    by simp_all
  ultimately show ?thesis
    unfolding digit_def by (simp only: nth_eq_iff_index_eq)
qed

lemma decimal_nonempty: "decimal n \<noteq> []"
  by (subst decimal.simps) simp

lemma dash_not_in_decimal: "CHR ''-'' \<notin> set (decimal n)"
proof (induction n rule: decimal.induct)
  case (1 n)
  then show ?case
    using digit_not_dash [of n]
    by (subst decimal.simps) auto
qed

lemma length_decimal_one: "(length (decimal n) = 1) = (n < 10)"
proof (cases "n < 10")
  case True
  then show ?thesis by (subst decimal.simps) simp
next
  case False
  have "length (decimal (n div 10)) \<noteq> 0"
    using decimal_nonempty by simp
  with False show ?thesis
    by (subst decimal.simps) simp
qed

lemma decimal_inj: "decimal a = decimal b \<Longrightarrow> a = b"
proof (induction a arbitrary: b rule: decimal.induct)
  case (1 a)
  show ?case
  proof (cases "a < 10")
    case True
    then have "b < 10"
      using "1.prems" length_decimal_one [of a] length_decimal_one [of b] by simp
    moreover have "digit a = digit b"
      using True \<open>b < 10\<close> "1.prems" by (subst (asm) decimal.simps, subst (asm) (2) decimal.simps) simp
    ultimately show ?thesis
      using True digit_inj [of a b] by simp
  next
    case False
    then have nb: "\<not> b < 10"
      using "1.prems" length_decimal_one [of a] length_decimal_one [of b] by simp
    have "decimal (a div 10) @ [digit a] = decimal (b div 10) @ [digit b]"
      using False nb "1.prems" by (subst (asm) decimal.simps, subst (asm) (2) decimal.simps) simp
    then have "decimal (a div 10) = decimal (b div 10)" and "digit a = digit b"
      by simp_all
    then have "a div 10 = b div 10" and "a mod 10 = b mod 10"
      using "1.IH" [OF False] digit_inj by blast+
    then show ?thesis
      by (metis div_mult_mod_eq)
  qed
qed

lemma split_at_first:
  assumes "c \<notin> set xs" and "c \<notin> set ys" and "xs @ c # r1 = ys @ c # r2"
  shows "xs = ys \<and> r1 = r2"
proof -
  have "takeWhile (\<lambda>x. x \<noteq> c) (zs @ c # r) = zs" if "c \<notin> set zs" for zs r
    using that by (induction zs) auto
  then have "xs = ys"
    using assms by metis
  with assms(3) show ?thesis
    by simp
qed

lemma id_determines_clock_and_draw:
  "(decimal n1 @ CHR ''-'' # r1 = decimal n2 @ CHR ''-'' # r2) = (n1 = n2 \<and> r1 = r2)"
  using split_at_first [OF dash_not_in_decimal dash_not_in_decimal, of n1 r1 n2 r2] decimal_inj
  by auto

lemma decimal_digit: "n < 10 \<Longrightarrow> decimal n = [digit n]"
  by (subst decimal.simps) simp

lemma cache_key_not_queue_key: "prefix CACHE_PREFIX k \<Longrightarrow> k \<noteq> QUEUE_KEY"
  by (auto simp: CACHE_PREFIX_def QUEUE_KEY_def)

lemma queue_key_not_cache_key: "\<not> prefix CACHE_PREFIX QUEUE_KEY"
  using cache_key_not_queue_key by blast

lemma users_key_eq: "users_key = CACHE_PREFIX @ ''GET:/api/'' @ ''users'' @ '':t=anon''"
  by (simp add: users_key_def cacheKeyFor_def getTokenForCache_def session_def fingerprint_def)

lemma users_key_matches: "prefix CACHE_PREFIX users_key" "sublist ''users'' users_key"
proof -
  show "prefix CACHE_PREFIX users_key"
    unfolding users_key_eq by simp
  have "sublist ''users'' ((CACHE_PREFIX @ ''GET:/api/'') @ ''users'' @ '':t=anon'')"
    by (rule sublist_appendI)
  then show "sublist ''users'' users_key"
    unfolding users_key_eq by simp
qed

lemma world1_facts:
  "isOnline world1" "loadQueue (lf world1) = [item0]"
  "getItem (lf world1) users_key = Some (CacheVal 1 ''[]'')"
  using cache_key_not_queue_key [OF users_key_matches(1)]
  by (auto simp: world1_def isOnline_def loadQueue_def getItem_def)

lemma item0_resource: "resourceType (url item0) = Some ''users''"
  by (simp add: item0_def resourceType_def)

lemma keys_down_clears:
  "invalidate_caches (keys_down f) i item0 st = (True, st)"
  by (simp add: invalidate_caches_def keys_down_def item0_resource)

lemma fetch_keys_down: "fetch (keys_down f) = f"
  by (simp add: keys_down_def)

lemma keys_down_ending: "ending_of (keys_down (\<lambda>i. Response 200)) (0, item0) st = Broke"
  by (simp add: ending_of_def keys_down_clears fetch_keys_down)

lemma keys_down_store: "store_after (keys_down (\<lambda>i. Response 200)) (0, item0) st = st"
  by (simp add: store_after_def keys_down_clears fetch_keys_down)

lemma keys_down_pass:
  "processQueue (keys_down (\<lambda>i. Response 200)) world1 =
     (\<lparr>res_processed = 1, res_failed = 0, res_remaining = 1\<rparr>,
      world1\<lparr>lf := saveQueue [item0\<lparr>retryCount := 1\<rparr>] (lf world1),
             events := [Started 0 0, Settled 0]\<rparr>)"
proof -
  have ne: "[item0] \<noteq> []" by simp
  have ev: "events world1 = []"
    by (simp add: world1_def)
  have acc: "accepted (fetch (keys_down (\<lambda>i. Response 200)) 0)"
    by (simp add: keys_down_def accepted_def ok_def)
  have b: "mk_batches 0 [(0::nat, item0)] = [[(0, item0)]]"
    by (simp add: mk_batches.simps batchSize_def)
  show ?thesis
    by (simp add: processQueue_online [OF world1_facts(1,2) ne] keys_down_ending keys_down_store
          survivors_def kept_def retried_def lost_def exhausted_def bump_def retryCount_item0
          acc b batch_events_def started_def backoffTime_def ev)
qed

lemma calm_pass:
  "fst (processQueue (calm (\<lambda>i. Response 200)) world1) =
     \<lparr>res_processed = 1, res_failed = 0, res_remaining = 0\<rparr>"
  "getItem (lf (snd (processQueue (calm (\<lambda>i. Response 200)) world1))) users_key = None"
  "getItem (lf (snd (processQueue (calm (\<lambda>i. Response 200)) world1))) QUEUE_KEY
     = Some (QueueVal [])"
proof -
  let ?env = "calm (\<lambda>i. Response 200)"
  have ne: "[item0] \<noteq> []" by simp
  have acc: "accepted (fetch ?env 0)"
    by (simp add: calm_def accepted_def ok_def)
  have inv: "invalidate_caches ?env 0 item0 (lf world1) =
               (False, [(QUEUE_KEY, QueueVal [item0])])"
    using users_key_matches queue_key_not_cache_key cache_key_not_queue_key [OF users_key_matches(1)]
    by (simp add: invalidate_caches_def calm_def item0_resource world1_def keys_def removeItem_def)
  have e: "ending_of ?env (0, item0) (lf world1) = Done"
    by (simp add: ending_of_def inv fetch_calm)
  have st: "store_after ?env (0, item0) (lf world1) = [(QUEUE_KEY, QueueVal [item0])]"
    by (simp add: store_after_def inv fetch_calm)
  note pq = processQueue_online [OF world1_facts(1,2) ne, of ?env]
  show "fst (processQueue ?env world1) = \<lparr>res_processed = 1, res_failed = 0, res_remaining = 0\<rparr>"
    by (simp add: pq e st survivors_def kept_def retried_def lost_def exhausted_def acc)
  show "getItem (lf (snd (processQueue ?env world1))) users_key = None"
    using cache_key_not_queue_key [OF users_key_matches(1)]
    by (simp add: pq e st getItem_saveQueue) (simp add: getItem_def)
  show "getItem (lf (snd (processQueue ?env world1))) QUEUE_KEY = Some (QueueVal [])"
    by (simp add: pq e st getItem_saveQueue survivors_def kept_def retried_def)
qed

subsection \<open>Cache keys\<close>

lemma cacheKeyFor_eq_iff:
  "(cacheKeyFor w1 u = cacheKeyFor w2 u) = (fingerprint (auth_token w1) = fingerprint (auth_token w2))"
  by (simp add: cacheKeyFor_def getTokenForCache_def)

lemma getCached_setCached:
  "getCached (setCached now k' d w) k = (if k = k' then Some d else getCached w k)"
  by (simp add: getCached_def setCached_def getItem_def setItem_def update_conv')

section \<open>The claims\<close>

text \<open>
  C1 does not hold of the code. The server accepts the request of the one queued item
  (200), \<open>processed\<close> is incremented, and then \<open>localforage.keys()\<close> rejects: the
  throw is caught by the \<open>catch\<close> meant for network failures, and the pass stores the
  accepted item again, with \<open>retryCount\<close> 1, to be sent once more.
\<close>

theorem accepted_item_stays_queued:
  "isOnline world1 \<and> loadQueue (lf world1) = [item0] \<and>
   fetch (keys_down (\<lambda>i. Response 200)) 0 = Response 200 \<and>
   keys_rejects (keys_down (\<lambda>i. Response 200)) 0 \<and>
   getItem (lf (snd (processQueue (keys_down (\<lambda>i. Response 200)) world1))) QUEUE_KEY
     = Some (QueueVal [item0\<lparr>retryCount := 1\<rparr>])"
  by (simp add: world1_facts keys_down_pass getItem_saveQueue) (simp add: keys_down_def)

text \<open>
  C2. An attempt that ends in a status of 500 or more, or in a throw before any
  response, adds one to the item's \<open>retryCount\<close>; the item is kept when the new count
  is at most 5, and otherwise \<open>failed\<close> is incremented and the item is dropped. This
  holds of \<open>run_item\<close> and of the pass over any queue, in any batch: the stored queue
  is the list of the kept items with their counts incremented, the item at position
  \<open>i\<close> is in it at its place when it is kept, and is counted in \<open>failed\<close> and absent
  from it when it is not. A queue of fresh items whose requests fail in six passes in a
  row is stored whole, with the counts 1 to 5, after the first five, is reported as
  failed and emptied by the sixth, and stays empty.
\<close>

theorem transient_failure_retries_then_drops:
  "(failing (fetch env i) \<longrightarrow>
      run_item env (i, item) s =
        (if retryCount item + 1 \<le> 5
         then (Some (item\<lparr>retryCount := retryCount item + 1\<rparr>), s)
         else (None, s\<lparr>failed := failed s + 1\<rparr>)))
   \<and> (isOnline w \<and> loadQueue (lf w) = q \<and> i < length q \<and> failing (fetch env i) \<longrightarrow>
        getItem (lf (snd (processQueue env w))) QUEUE_KEY =
          Some (QueueVal
            (map (\<lambda>pe. (snd (fst pe))\<lparr>retryCount := retryCount (snd (fst pe)) + 1\<rparr>)
               (filter kept (zip (enumerate 0 q) (endings env (enumerate 0 q) (lf w))))))
        \<and> res_failed (fst (processQueue env w)) =
            length (filter lost (zip (enumerate 0 q) (endings env (enumerate 0 q) (lf w))))
        \<and> res_remaining (fst (processQueue env w)) =
            length (filter kept (zip (enumerate 0 q) (endings env (enumerate 0 q) (lf w))))
        \<and> (if retryCount (q ! i) + 1 \<le> 5
            then kept (zip (enumerate 0 q) (endings env (enumerate 0 q) (lf w)) ! i)
               \<and> length (filter kept (take i (zip (enumerate 0 q) (endings env (enumerate 0 q) (lf w)))))
                   < length (filter kept (zip (enumerate 0 q) (endings env (enumerate 0 q) (lf w))))
               \<and> map (\<lambda>pe. (snd (fst pe))\<lparr>retryCount := retryCount (snd (fst pe)) + 1\<rparr>)
                    (filter kept (zip (enumerate 0 q) (endings env (enumerate 0 q) (lf w))))
                  ! length (filter kept (take i (zip (enumerate 0 q) (endings env (enumerate 0 q) (lf w)))))
                  = (q ! i)\<lparr>retryCount := retryCount (q ! i) + 1\<rparr>
            else lost (zip (enumerate 0 q) (endings env (enumerate 0 q) (lf w)) ! i)
               \<and> filter kept (zip (enumerate 0 q) (endings env (enumerate 0 q) (lf w))) =
                   filter (\<lambda>pe. fst (fst pe) \<noteq> i \<and> kept pe)
                     (zip (enumerate 0 q) (endings env (enumerate 0 q) (lf w)))))
   \<and> (isOnline w' \<and> loadQueue (lf w') = q' \<and> q' \<noteq> []
        \<and> list_all (\<lambda>item. retryCount item = 0) q' \<and> length envs = 6
        \<and> list_all (\<lambda>e. list_all (\<lambda>i. failing (fetch e i)) [0..<length q']) envs
        \<and> j \<le> 5 \<longrightarrow>
        loadQueue (lf (snd (sync_passes (take j envs) w'))) =
          map (\<lambda>item. item\<lparr>retryCount := j\<rparr>) q'
        \<and> fst (sync_passes (envs @ later) w') =
            replicate 5 \<lparr>res_processed = 0, res_failed = 0, res_remaining = length q'\<rparr>
            @ [\<lparr>res_processed = 0, res_failed = length q', res_remaining = 0\<rparr>]
            @ replicate (length later) \<lparr>res_processed = 0, res_failed = 0, res_remaining = 0\<rparr>
        \<and> loadQueue (lf (snd (sync_passes (envs @ later) w'))) = [])"
proof (intro conjI impI)
  assume "failing (fetch env i)"
  then show "run_item env (i, item) s =
        (if retryCount item + 1 \<le> 5
         then (Some (item\<lparr>retryCount := retryCount item + 1\<rparr>), s)
         else (None, s\<lparr>failed := failed s + 1\<rparr>))"
    by (rule run_item_failing)
next
  let ?Z = "zip (enumerate 0 q) (endings env (enumerate 0 q) (lf w))"
  let ?up = "\<lambda>pe::(nat \<times> QueuedRequest) \<times> ending.
               (snd (fst pe))\<lparr>retryCount := retryCount (snd (fst pe)) + 1\<rparr>"
  assume a: "isOnline w \<and> loadQueue (lf w) = q \<and> i < length q \<and> failing (fetch env i)"
  then have on: "isOnline w" and q: "loadQueue (lf w) = q" and i: "i < length q"
    and f: "failing (fetch env i)"
    by simp_all
  have ne: "q \<noteq> []"
    using i by auto
  have e: "ending_of env (i, q ! i) st = Retry" for st
    using f by (simp add: ending_failing)
  have zi: "?Z ! i = ((i, q ! i), Retry)"
    by (simp add: zip_endings_nth [OF i] e)
  have iz: "i < length ?Z"
    using i by (simp add: length_endings)
  show "getItem (lf (snd (processQueue env w))) QUEUE_KEY = Some (QueueVal (map ?up (filter kept ?Z)))"
    using persisted_after_pass [OF on q ne, of env] by (simp add: survivors_def bump_def)
  show "res_failed (fst (processQueue env w)) = length (filter lost ?Z)"
    by (simp add: processQueue_online [OF on q ne])
  show "res_remaining (fst (processQueue env w)) = length (filter kept ?Z)"
    by (simp add: processQueue_online [OF on q ne] survivors_def)
  show "if retryCount (q ! i) + 1 \<le> 5
        then kept (?Z ! i)
           \<and> length (filter kept (take i ?Z)) < length (filter kept ?Z)
           \<and> map ?up (filter kept ?Z) ! length (filter kept (take i ?Z))
               = (q ! i)\<lparr>retryCount := retryCount (q ! i) + 1\<rparr>
        else lost (?Z ! i)
           \<and> filter kept ?Z = filter (\<lambda>pe. fst (fst pe) \<noteq> i \<and> kept pe) ?Z"
  proof (cases "retryCount (q ! i) + 1 \<le> 5")
    case True
    then have k: "kept (?Z ! i)"
      by (simp add: zi kept_def retried_def)
    note pos = filter_nth_position [of i ?Z kept, OF iz k]
    have "map ?up (filter kept ?Z) ! length (filter kept (take i ?Z)) = ?up (?Z ! i)"
      using pos by (simp only: nth_map)
    also have "\<dots> = (q ! i)\<lparr>retryCount := retryCount (q ! i) + 1\<rparr>"
      by (simp add: zi)
    finally show ?thesis
      using True k pos(1) by simp
  next
    case False
    then have l: "lost (?Z ! i)"
      by (simp add: zi lost_def exhausted_def retried_def)
    have "filter kept ?Z = filter (\<lambda>pe. fst (fst pe) \<noteq> i \<and> kept pe) ?Z"
      using False by (intro skip_position) (simp add: e kept_def)
    with False l show ?thesis by simp
  qed
next
  assume a: "isOnline w' \<and> loadQueue (lf w') = q' \<and> q' \<noteq> []
        \<and> list_all (\<lambda>item. retryCount item = 0) q' \<and> length envs = 6
        \<and> list_all (\<lambda>e. list_all (\<lambda>i. failing (fetch e i)) [0..<length q']) envs
        \<and> j \<le> 5"
  then have on: "isOnline w'" and q: "loadQueue (lf w') = q'" and ne: "q' \<noteq> []"
    and z: "list_all (\<lambda>item. retryCount item = 0) q'" and six: "length envs = 6"
    and f: "list_all (\<lambda>e. list_all (\<lambda>i. failing (fetch e i)) [0..<length q']) envs"
    and j: "j \<le> 5"
    by simp_all
  have sub: "list_all (\<lambda>e. list_all (\<lambda>i. failing (fetch e i)) [0..<length q']) (take n envs)" for n
    using f by (auto simp: list_all_iff dest: in_set_takeD)
  have lj: "length (take j envs) = j"
    using six j by simp
  show "loadQueue (lf (snd (sync_passes (take j envs) w'))) = map (\<lambda>item. item\<lparr>retryCount := j\<rparr>) q'"
    using retry_prefix [OF on q ne z sub [of j]] lj j by simp
  let ?xs = "take 5 envs"
  let ?w5 = "snd (sync_passes ?xs w')"
  let ?q5 = "map (\<lambda>item. item\<lparr>retryCount := 5\<rparr>) q'"
  have l5: "length ?xs = 5"
    using six by simp
  have envs: "envs = ?xs @ [envs ! 5]"
  proof -
    have "take (Suc 5) envs = take 5 envs @ [envs ! 5]"
      using six by (intro take_Suc_conv_app_nth) simp
    moreover have "take (Suc 5) envs = envs"
      using six by simp
    ultimately show ?thesis by simp
  qed
  have pre: "fst (sync_passes ?xs w') =
           replicate 5 \<lparr>res_processed = 0, res_failed = 0, res_remaining = length q'\<rparr>"
    and q5: "loadQueue (lf ?w5) = ?q5" and on5: "isOnline ?w5"
    using retry_prefix [OF on q ne z sub [of 5]] l5 by simp_all
  have f5: "list_all (\<lambda>i. failing (fetch (envs ! 5) i)) [0..<length ?q5]"
    using f six by (simp add: list_all_iff)
  have ne5: "?q5 \<noteq> []"
    using ne by simp
  have k5: "list_all (\<lambda>item. retryCount item = 5) ?q5"
    by (simp add: list_all_iff)
  note last = pass_all_failing [OF on5 q5 ne5 f5 k5]
  have one: "sync_passes [envs ! 5] ?w5 =
               ([\<lparr>res_processed = 0, res_failed = length q', res_remaining = 0\<rparr>],
                snd (processQueue (envs ! 5) ?w5))"
    using last(1) by (simp add: split_beta prod_eq_iff)
  have empty: "loadQueue (lf (snd (processQueue (envs ! 5) ?w5))) = []"
    using last(2) by simp
  have all: "sync_passes (envs @ later) w' =
      (fst (sync_passes ?xs w') @
         [\<lparr>res_processed = 0, res_failed = length q', res_remaining = 0\<rparr>] @
         replicate (length later) no_op,
       snd (processQueue (envs ! 5) ?w5))"
  proof -
    have "sync_passes (envs @ later) w' = sync_passes (?xs @ ([envs ! 5] @ later)) w'"
      using envs by (metis append_assoc)
    also have "\<dots> = (fst (sync_passes ?xs w') @
         [\<lparr>res_processed = 0, res_failed = length q', res_remaining = 0\<rparr>] @
         replicate (length later) no_op,
       snd (processQueue (envs ! 5) ?w5))"
      by (simp only: sync_passes_append [of ?xs] sync_passes_append [of "[envs ! 5]"] one
            fst_conv snd_conv sync_passes_idle [OF empty])
    finally show ?thesis .
  qed
  show "fst (sync_passes (envs @ later) w') =
            replicate 5 \<lparr>res_processed = 0, res_failed = 0, res_remaining = length q'\<rparr>
            @ [\<lparr>res_processed = 0, res_failed = length q', res_remaining = 0\<rparr>]
            @ replicate (length later) \<lparr>res_processed = 0, res_failed = 0, res_remaining = 0\<rparr>"
    by (simp add: all pre no_op_def)
  show "loadQueue (lf (snd (sync_passes (envs @ later) w'))) = []"
    by (simp add: all empty)
qed

theorem transient_failure_retries_then_drops_witness:
  "failing (fetch (calm (\<lambda>i. Response 503)) 3) \<and>
   run_item (calm (\<lambda>i. Response 503)) (3, item0) pass0 =
     (Some (item0\<lparr>retryCount := 1\<rparr>), pass0) \<and>
   isOnline (world0 True [item0, item0\<lparr>retryCount := 5\<rparr>, item0, item0]) \<and>
   loadQueue (lf (world0 True [item0, item0\<lparr>retryCount := 5\<rparr>, item0, item0]))
     = [item0, item0\<lparr>retryCount := 5\<rparr>, item0, item0] \<and>
   3 < length [item0, item0\<lparr>retryCount := 5\<rparr>, item0, item0] \<and>
   getItem (lf (snd (processQueue (calm (\<lambda>i. Response 503))
                       (world0 True [item0, item0\<lparr>retryCount := 5\<rparr>, item0, item0]))))
       QUEUE_KEY
     = Some (QueueVal [item0\<lparr>retryCount := 1\<rparr>, item0\<lparr>retryCount := 1\<rparr>,
                       item0\<lparr>retryCount := 1\<rparr>]) \<and>
   res_failed (fst (processQueue (calm (\<lambda>i. Response 503))
                      (world0 True [item0, item0\<lparr>retryCount := 5\<rparr>, item0, item0]))) = 1 \<and>
   res_remaining (fst (processQueue (calm (\<lambda>i. Response 503))
                      (world0 True [item0, item0\<lparr>retryCount := 5\<rparr>, item0, item0]))) = 3 \<and>
   isOnline (world0 True [item0, item0, item0, item0]) \<and>
   loadQueue (lf (world0 True [item0, item0, item0, item0])) = [item0, item0, item0, item0] \<and>
   [item0, item0, item0, item0] \<noteq> [] \<and>
   list_all (\<lambda>item. retryCount item = 0) [item0, item0, item0, item0] \<and>
   length (replicate 6 (calm (\<lambda>i. Response 503))) = 6 \<and>
   list_all (\<lambda>e. list_all (\<lambda>i. failing (fetch e i)) [0..<length [item0, item0, item0, item0]])
     (replicate 6 (calm (\<lambda>i. Response 503))) \<and>
   (2::nat) \<le> 5 \<and>
   loadQueue (lf (snd (sync_passes (take 2 (replicate 6 (calm (\<lambda>i. Response 503))))
                         (world0 True [item0, item0, item0, item0]))))
     = [item0\<lparr>retryCount := 2\<rparr>, item0\<lparr>retryCount := 2\<rparr>,
        item0\<lparr>retryCount := 2\<rparr>, item0\<lparr>retryCount := 2\<rparr>] \<and>
   fst (sync_passes (replicate 6 (calm (\<lambda>i. Response 503)) @ [calm (\<lambda>i. Response 200)])
          (world0 True [item0, item0, item0, item0])) =
     [\<lparr>res_processed = 0, res_failed = 0, res_remaining = 4\<rparr>,
      \<lparr>res_processed = 0, res_failed = 0, res_remaining = 4\<rparr>,
      \<lparr>res_processed = 0, res_failed = 0, res_remaining = 4\<rparr>,
      \<lparr>res_processed = 0, res_failed = 0, res_remaining = 4\<rparr>,
      \<lparr>res_processed = 0, res_failed = 0, res_remaining = 4\<rparr>,
      \<lparr>res_processed = 0, res_failed = 4, res_remaining = 0\<rparr>,
      \<lparr>res_processed = 0, res_failed = 0, res_remaining = 0\<rparr>] \<and>
   loadQueue (lf (snd (sync_passes
                         (replicate 6 (calm (\<lambda>i. Response 503)) @ [calm (\<lambda>i. Response 200)])
                         (world0 True [item0, item0, item0, item0])))) = []"
proof -
  let ?env = "calm (\<lambda>i. Response 503)"
  let ?qa = "[item0, item0\<lparr>retryCount := 5\<rparr>, item0, item0]"
  let ?wa = "world0 True ?qa"
  let ?qb = "[item0, item0, item0, item0]"
  let ?wb = "world0 True ?qb"
  let ?envs = "replicate 6 ?env"
  let ?later = "[calm (\<lambda>i. Response 200)]"
  let ?Z = "zip (enumerate 0 ?qa) (endings ?env (enumerate 0 ?qa) (lf ?wa))"
  note t = transient_failure_retries_then_drops
             [of ?env 3 item0 pass0 ?wa ?qa ?wb ?qb ?envs 2 ?later]
  have f: "failing (fetch ?env i)" for i
    by (simp add: fetch_calm failing_def)
  have five: "replicate 5 x = [x, x, x, x, x]" for x :: sync_result
    by (simp add: eval_nat_numeral)
  have ha: "isOnline ?wa \<and> loadQueue (lf ?wa) = ?qa \<and> 3 < length ?qa \<and> failing (fetch ?env 3)"
    by (simp add: isOnline_world0 loadQueue_world0 f)
  have hb: "isOnline ?wb \<and> loadQueue (lf ?wb) = ?qb \<and> ?qb \<noteq> []
        \<and> list_all (\<lambda>item. retryCount item = 0) ?qb \<and> length ?envs = 6
        \<and> list_all (\<lambda>e. list_all (\<lambda>i. failing (fetch e i)) [0..<length ?qb]) ?envs
        \<and> (2::nat) \<le> 5"
    by (simp add: isOnline_world0 loadQueue_world0 retryCount_item0 f list_all_iff)
  have z: "?Z = [((0, item0), Retry), ((1, item0\<lparr>retryCount := 5\<rparr>), Retry),
                 ((2, item0), Retry), ((3, item0), Retry)]"
    by (simp add: ending_of_def store_after_def fetch_calm eval_nat_numeral)
  have k: "filter kept ?Z = [((0, item0), Retry), ((2, item0), Retry), ((3, item0), Retry)]"
    unfolding z by (simp add: kept_def retried_def retryCount_item0)
  have l: "filter lost ?Z = [((1, item0\<lparr>retryCount := 5\<rparr>), Retry)]"
    unfolding z by (simp add: lost_def exhausted_def retried_def retryCount_item0)
  from t f have 1: "run_item ?env (3, item0) pass0 = (Some (item0\<lparr>retryCount := 1\<rparr>), pass0)"
    by (simp add: retryCount_item0)
  from t ha have 2: "getItem (lf (snd (processQueue ?env ?wa))) QUEUE_KEY =
          Some (QueueVal
            (map (\<lambda>pe. (snd (fst pe))\<lparr>retryCount := retryCount (snd (fst pe)) + 1\<rparr>)
               (filter kept ?Z)))"
    and 3: "res_failed (fst (processQueue ?env ?wa)) = length (filter lost ?Z)"
    and 4: "res_remaining (fst (processQueue ?env ?wa)) = length (filter kept ?Z)"
    by blast+
  from t hb have 5: "loadQueue (lf (snd (sync_passes (take 2 ?envs) ?wb))) =
          map (\<lambda>item. item\<lparr>retryCount := 2\<rparr>) ?qb"
    and 6: "fst (sync_passes (?envs @ ?later) ?wb) =
            replicate 5 \<lparr>res_processed = 0, res_failed = 0, res_remaining = length ?qb\<rparr>
            @ [\<lparr>res_processed = 0, res_failed = length ?qb, res_remaining = 0\<rparr>]
            @ replicate (length ?later) \<lparr>res_processed = 0, res_failed = 0, res_remaining = 0\<rparr>"
    and 7: "loadQueue (lf (snd (sync_passes (?envs @ ?later) ?wb))) = []"
    by blast+
  have r2: "getItem (lf (snd (processQueue ?env ?wa))) QUEUE_KEY =
      Some (QueueVal [item0\<lparr>retryCount := 1\<rparr>, item0\<lparr>retryCount := 1\<rparr>,
                       item0\<lparr>retryCount := 1\<rparr>])"
    using 2 unfolding k by (simp add: retryCount_item0)
  have r3: "res_failed (fst (processQueue ?env ?wa)) = 1"
    using 3 unfolding l by simp
  have r4: "res_remaining (fst (processQueue ?env ?wa)) = 3"
    using 4 unfolding k by simp
  have r6: "fst (sync_passes (?envs @ ?later) ?wb) =
     [\<lparr>res_processed = 0, res_failed = 0, res_remaining = 4\<rparr>,
      \<lparr>res_processed = 0, res_failed = 0, res_remaining = 4\<rparr>,
      \<lparr>res_processed = 0, res_failed = 0, res_remaining = 4\<rparr>,
      \<lparr>res_processed = 0, res_failed = 0, res_remaining = 4\<rparr>,
      \<lparr>res_processed = 0, res_failed = 0, res_remaining = 4\<rparr>,
      \<lparr>res_processed = 0, res_failed = 4, res_remaining = 0\<rparr>,
      \<lparr>res_processed = 0, res_failed = 0, res_remaining = 0\<rparr>]"
    using 6 by (simp add: five)
  show ?thesis
    using ha hb 1 r2 r3 r4 5 r6 7 by simp
qed

text \<open>
  C3. An attempt that ends in a status from 400 to 499 increments \<open>failed\<close> and drops the
  item, whatever its \<open>retryCount\<close>, which is not touched: the pass reports a failure and
  the stored queue is made of the kept items at the other positions only.
\<close>

theorem client_error_drops_at_once:
  assumes "fetch env i = Response status" and "400 \<le> status" and "status \<le> 499"
    and "isOnline w" and "loadQueue (lf w) = q" and "i < length q"
  shows "run_item env (i, item) s = (None, s\<lparr>failed := failed s + 1\<rparr>)
       \<and> 0 < res_failed (fst (processQueue env w))
       \<and> getItem (lf (snd (processQueue env w))) QUEUE_KEY =
           Some (QueueVal
             (map (\<lambda>pe. (snd (fst pe))\<lparr>retryCount := retryCount (snd (fst pe)) + 1\<rparr>)
                (filter (\<lambda>pe. fst (fst pe) \<noteq> i \<and> retried (snd pe)
                              \<and> retryCount (snd (fst pe)) + 1 \<le> 5)
                   (zip (enumerate 0 q) (endings env (enumerate 0 q) (lf w))))))"
proof -
  let ?Z = "zip (enumerate 0 q) (endings env (enumerate 0 q) (lf w))"
  have e: "ending_of env (i, x) st = Refused" for x st
    using assms(1-3) by (simp add: ending_of_def)
  have ne: "q \<noteq> []"
    using assms(6) by auto
  have 1: "run_item env (i, item) s = (None, s\<lparr>failed := failed s + 1\<rparr>)"
    by (simp add: run_item_ending e)
  have "lost (?Z ! i)"
    by (simp add: zip_endings_nth [OF assms(6)] e lost_def)
  moreover have "i < length ?Z"
    using assms(6) by (simp add: length_endings)
  ultimately have 2: "0 < res_failed (fst (processQueue env w))"
    using filter_pos [of i ?Z lost]
    by (simp add: processQueue_online [OF assms(4,5) ne])
  have "filter kept ?Z = filter (\<lambda>pe. fst (fst pe) \<noteq> i \<and> kept pe) ?Z"
    by (rule skip_position) (simp add: e kept_def retried_def)
  then have 3: "getItem (lf (snd (processQueue env w))) QUEUE_KEY =
           Some (QueueVal
             (map (\<lambda>pe. (snd (fst pe))\<lparr>retryCount := retryCount (snd (fst pe)) + 1\<rparr>)
                (filter (\<lambda>pe. fst (fst pe) \<noteq> i \<and> retried (snd pe)
                              \<and> retryCount (snd (fst pe)) + 1 \<le> 5) ?Z)))"
    using persisted_after_pass [OF assms(4,5) ne, of env]
    by (simp add: survivors_def kept_def bump_def)
  show ?thesis
    using 1 2 3 by blast
qed

theorem client_error_drops_at_once_witness:
  "fetch (calm (\<lambda>i. if i = 0 then Response 404 else NetworkError)) 0 = Response 404 \<and>
   (400::nat) \<le> 404 \<and> (404::nat) \<le> 499 \<and>
   isOnline (world0 True [item0\<lparr>retryCount := 4\<rparr>, item0]) \<and>
   loadQueue (lf (world0 True [item0\<lparr>retryCount := 4\<rparr>, item0]))
     = [item0\<lparr>retryCount := 4\<rparr>, item0] \<and>
   0 < length [item0\<lparr>retryCount := 4\<rparr>, item0] \<and>
   run_item (calm (\<lambda>i. if i = 0 then Response 404 else NetworkError))
       (0, item0\<lparr>retryCount := 4\<rparr>) pass0 = (None, pass0\<lparr>failed := 1\<rparr>) \<and>
   0 < res_failed (fst (processQueue (calm (\<lambda>i. if i = 0 then Response 404 else NetworkError))
                          (world0 True [item0\<lparr>retryCount := 4\<rparr>, item0]))) \<and>
   getItem (lf (snd (processQueue (calm (\<lambda>i. if i = 0 then Response 404 else NetworkError))
                       (world0 True [item0\<lparr>retryCount := 4\<rparr>, item0])))) QUEUE_KEY
     = Some (QueueVal [item0\<lparr>retryCount := 1\<rparr>])"
  using client_error_drops_at_once
          [of "calm (\<lambda>i. if i = 0 then Response 404 else NetworkError)" 0 404
              "world0 True [item0\<lparr>retryCount := 4\<rparr>, item0]"
              "[item0\<lparr>retryCount := 4\<rparr>, item0]" "item0\<lparr>retryCount := 4\<rparr>" pass0]
  by (simp add: isOnline_world0 loadQueue_world0 fetch_calm ending_of_def store_after_def
        retried_def retryCount_item0 pass0_def)

text \<open>
  C4. Each item of a pass waits before its request for 0 ms when its \<open>retryCount\<close> is 0,
  and for \<open>min (1000 * 2 ^ (retryCount - 1)) 30000\<close> ms otherwise: 1000, 2000, 4000, 8000
  and 16000 ms for the counts 1 to 5.
\<close>

theorem backoff_before_attempt:
  assumes "isOnline w" and "loadQueue (lf w) = q" and "q \<noteq> []"
  shows "waits (events (snd (processQueue env w))) =
           waits (events w) @
           map (\<lambda>item. if retryCount item = 0 then 0
                        else min (1000 * 2 ^ (retryCount item - 1)) 30000) q
         \<and> map backoffTime [0, 1, 2, 3, 4, 5] = [0, 1000, 2000, 4000, 8000, 16000]"
proof -
  have "map (\<lambda>p. backoffTime (retryCount (snd p))) (enumerate 0 q) =
        map (\<lambda>item. backoffTime (retryCount item)) (map snd (enumerate 0 q))"
    by (simp only: map_map comp_def)
  then have "waits (concat (map batch_events (mk_batches 0 (enumerate 0 q)))) =
        map (\<lambda>item. backoffTime (retryCount item)) q"
    by (simp add: waits_batches concat_batches_all)
  then show ?thesis
    by (simp add: processQueue_online [OF assms] waits_append backoff_values backoffTime_def)
qed

theorem backoff_before_attempt_witness:
  "isOnline (world0 True [item0, item0\<lparr>retryCount := 3\<rparr>]) \<and>
   loadQueue (lf (world0 True [item0, item0\<lparr>retryCount := 3\<rparr>]))
     = [item0, item0\<lparr>retryCount := 3\<rparr>] \<and>
   [item0, item0\<lparr>retryCount := 3\<rparr>] \<noteq> [] \<and>
   waits (events (snd (processQueue (calm (\<lambda>i. NetworkError))
                         (world0 True [item0, item0\<lparr>retryCount := 3\<rparr>]))))
     = [0, 4000]"
  using backoff_before_attempt
          [of "world0 True [item0, item0\<lparr>retryCount := 3\<rparr>]"
              "[item0, item0\<lparr>retryCount := 3\<rparr>]" "calm (\<lambda>i. NetworkError)"]
  by (simp add: isOnline_world0 loadQueue_world0 retryCount_item0 events_world0)

text \<open>
  C5 does not hold of the code, by the same defect as C1. The request of the queued item
  is accepted (200) and its path names the resource \<open>users\<close>, for which a cache entry
  exists; \<open>localforage.keys()\<close> rejects. The item is counted as processed and is not
  dropped: it is stored again with \<open>retryCount\<close> 1, and the cache entry stays. On the same
  world with a store that answers, the item is dropped and the entry removed.
\<close>

theorem accepted_item_neither_dropped_nor_cleared:
  "resourceType (url item0) = Some ''users'' \<and>
   prefix CACHE_PREFIX users_key \<and> sublist ''users'' users_key \<and>
   getItem (lf world1) users_key = Some (CacheVal 1 ''[]'') \<and>
   fst (processQueue (keys_down (\<lambda>i. Response 200)) world1)
     = \<lparr>res_processed = 1, res_failed = 0, res_remaining = 1\<rparr> \<and>
   loadQueue (lf (snd (processQueue (keys_down (\<lambda>i. Response 200)) world1)))
     = [item0\<lparr>retryCount := 1\<rparr>] \<and>
   getItem (lf (snd (processQueue (keys_down (\<lambda>i. Response 200)) world1))) users_key
     = Some (CacheVal 1 ''[]'') \<and>
   fst (processQueue (calm (\<lambda>i. Response 200)) world1)
     = \<lparr>res_processed = 1, res_failed = 0, res_remaining = 0\<rparr> \<and>
   getItem (lf (snd (processQueue (calm (\<lambda>i. Response 200)) world1))) QUEUE_KEY
     = Some (QueueVal []) \<and>
   getItem (lf (snd (processQueue (calm (\<lambda>i. Response 200)) world1))) users_key = None"
  using cache_key_not_queue_key [OF users_key_matches(1)]
  by (simp add: item0_resource users_key_matches world1_facts keys_down_pass calm_pass
        getItem_saveQueue loadQueue_saveQueue)

text \<open>
  C6. A non-empty queue of \<open>n\<close> items is cut, in order, into \<open>ceil(n / 3)\<close> batches of
  three items with the remainder in the last one. The batches run one after another: the
  events of the pass are, batch by batch, the starts of the items of the batch followed by
  their settlements, so no item of a batch starts before every item of the batch before
  it has settled. Every item of every batch is run: the counters and the stored queue
  are those of the whole queue. Seven items give batches of 3, 3 and 1.
\<close>

theorem batches_of_three:
  assumes "isOnline w" and "loadQueue (lf w) = q" and "q \<noteq> []"
  shows "events (snd (processQueue env w)) =
           events w @
           concat (map (\<lambda>b. map (\<lambda>p. Started (fst p) (backoffTime (retryCount (snd p)))) b
                             @ map (\<lambda>p. Settled (fst p)) b)
                       (mk_batches 0 (enumerate 0 q)))
         \<and> concat (mk_batches 0 (enumerate 0 q)) = enumerate 0 q
         \<and> map length (mk_batches 0 (enumerate 0 q)) =
             replicate (length q div 3) 3 @ (if length q mod 3 = 0 then [] else [length q mod 3])
         \<and> length (mk_batches 0 (enumerate 0 q)) = (length q + 2) div 3
         \<and> res_processed (fst (processQueue env w)) =
             length (filter (\<lambda>i. accepted (fetch env i)) [0..<length q])
         \<and> res_failed (fst (processQueue env w)) =
             length (filter lost (zip (enumerate 0 q) (endings env (enumerate 0 q) (lf w))))
         \<and> res_remaining (fst (processQueue env w)) =
             length (filter kept (zip (enumerate 0 q) (endings env (enumerate 0 q) (lf w))))
         \<and> getItem (lf (snd (processQueue env w))) QUEUE_KEY =
             Some (QueueVal
               (map (\<lambda>pe. (snd (fst pe))\<lparr>retryCount := retryCount (snd (fst pe)) + 1\<rparr>)
                  (filter kept (zip (enumerate 0 q) (endings env (enumerate 0 q) (lf w))))))"
proof -
  have ev: "batch_events = (\<lambda>b. map (\<lambda>p. Started (fst p) (backoffTime (retryCount (snd p)))) b
                             @ map (\<lambda>p. Settled (fst p)) b)"
    by (rule ext) (simp add: batch_events_def started_def)
  have len: "length (mk_batches 0 (enumerate 0 q)) = (length q + 2) div 3"
  proof -
    have "length (mk_batches 0 (enumerate 0 q)) = length (map length (mk_batches 0 (enumerate 0 q)))"
      by simp
    also have "\<dots> = (length q + 2) div 3"
      by (simp add: lengths_mk_batches length_batch_sizes)
    finally show ?thesis .
  qed
  show ?thesis
    using lengths_mk_batches [of 0 "enumerate 0 q"] len
    by (simp add: processQueue_online [OF assms] ev [symmetric] concat_batches_all
          batch_sizes_def count_accepted_positions getItem_saveQueue survivors_def bump_def)
qed

theorem batches_of_three_witness:
  "isOnline (world0 True [item0, item0, item0, item0, item0, item0, item0]) \<and>
   loadQueue (lf (world0 True [item0, item0, item0, item0, item0, item0, item0]))
     = [item0, item0, item0, item0, item0, item0, item0] \<and>
   [item0, item0, item0, item0, item0, item0, item0] \<noteq> [] \<and>
   events (snd (processQueue (calm (\<lambda>i. Response 200))
                  (world0 True [item0, item0, item0, item0, item0, item0, item0])))
     = [Started 0 0, Started 1 0, Started 2 0, Settled 0, Settled 1, Settled 2,
        Started 3 0, Started 4 0, Started 5 0, Settled 3, Settled 4, Settled 5,
        Started 6 0, Settled 6] \<and>
   map length (mk_batches 0 (enumerate 0 [item0, item0, item0, item0, item0, item0, item0]))
     = [3, 3, 1] \<and>
   res_processed (fst (processQueue (calm (\<lambda>i. Response 200))
                         (world0 True [item0, item0, item0, item0, item0, item0, item0])))
     = 7"
proof -
  let ?q = "[item0, item0, item0, item0, item0, item0, item0]"
  let ?w = "world0 True ?q"
  let ?env = "calm (\<lambda>i. Response 200)"
  have on: "isOnline ?w" and q: "loadQueue (lf ?w) = ?q" and ne: "?q \<noteq> []"
    by (simp_all add: isOnline_world0 loadQueue_world0)
  note t = batches_of_three [OF on q ne, of ?env]
  have en: "enumerate 0 ?q =
              [(0, item0), (1, item0), (2, item0), (3, item0), (4, item0), (5, item0),
               (6, item0)]"
    by (simp add: eval_nat_numeral)
  have b: "mk_batches 0 (enumerate 0 ?q) =
             [[(0, item0), (1, item0), (2, item0)], [(3, item0), (4, item0), (5, item0)],
              [(6, item0)]]"
    by (simp only: en mk_batches_seven)
  from t have "events (snd (processQueue ?env ?w)) =
           events ?w @
           concat (map (\<lambda>b. map (\<lambda>p. Started (fst p) (backoffTime (retryCount (snd p)))) b
                             @ map (\<lambda>p. Settled (fst p)) b)
                       (mk_batches 0 (enumerate 0 ?q)))"
    by (rule conjunct1)
  then have ev: "events (snd (processQueue ?env ?w)) =
     [Started 0 0, Started 1 0, Started 2 0, Settled 0, Settled 1, Settled 2,
        Started 3 0, Started 4 0, Started 5 0, Settled 3, Settled 4, Settled 5,
        Started 6 0, Settled 6]"
    unfolding b by (simp add: events_world0 retryCount_item0 backoffTime_def)
  from t have "res_processed (fst (processQueue ?env ?w)) =
             length (filter (\<lambda>i. accepted (fetch ?env i)) [0..<length ?q])"
    by blast
  then have p: "res_processed (fst (processQueue ?env ?w)) = 7"
    by (simp add: fetch_calm accepted_def ok_def)
  have l: "map length (mk_batches 0 (enumerate 0 ?q)) = [3, 3, 1]"
    unfolding b by simp
  show ?thesis
    using on q ev p l by simp
qed

text \<open>
  C7. When \<open>isOnline\<close> is false, \<open>processQueue\<close> returns
  \<open>{processed: 0, failed: 0, remaining: 0}\<close> and leaves the world as it was: nothing is
  sent and nothing is written. The answer is the same whatever the store holds, so the
  queue is not read.
\<close>

theorem offline_is_no_op:
  assumes "\<not> isOnline w"
  shows "processQueue env w =
           (\<lparr>res_processed = 0, res_failed = 0, res_remaining = 0\<rparr>, w) \<and>
         processQueue env (w\<lparr>lf := st\<rparr>) =
           (\<lparr>res_processed = 0, res_failed = 0, res_remaining = 0\<rparr>, w\<lparr>lf := st\<rparr>)"
proof -
  have "\<not> isOnline (w\<lparr>lf := st\<rparr>)"
    using assms by (simp add: isOnline_def)
  with assms show ?thesis
    by (simp add: processQueue_offline no_op_def)
qed

theorem offline_is_no_op_witness:
  "\<not> isOnline (world0 False [item0]) \<and>
   processQueue (calm (\<lambda>i. Response 200)) (world0 False [item0]) =
     (\<lparr>res_processed = 0, res_failed = 0, res_remaining = 0\<rparr>, world0 False [item0]) \<and>
   loadQueue (lf (snd (processQueue (calm (\<lambda>i. Response 200)) (world0 False [item0]))))
     = [item0]"
  using offline_is_no_op [of "world0 False [item0]" "calm (\<lambda>i. Response 200)"]
  by (simp add: isOnline_world0 loadQueue_world0)

text \<open>
  C8, as stated, fails: two different credentials that agree on their first 16
  characters get the same key, and a read under one returns what the other cached.
  The two tokens below share the header of a signed token.
\<close>

theorem cache_key_collision:
  "cacheKeyFor (session (Some ''eyJhbGciOiJIUzI1NiIsInR5cCI6IkpXVCJ9.alice'')) ''/api/x'' =
   cacheKeyFor (session (Some ''eyJhbGciOiJIUzI1NiIsInR5cCI6IkpXVCJ9.bob'')) ''/api/x'' \<and>
   ''eyJhbGciOiJIUzI1NiIsInR5cCI6IkpXVCJ9.alice'' \<noteq> ''eyJhbGciOiJIUzI1NiIsInR5cCI6IkpXVCJ9.bob'' \<and>
   getCached (setCached 1 (cacheKeyFor (session (Some ''eyJhbGciOiJIUzI1NiIsInR5cCI6IkpXVCJ9.bob'')) ''/api/x'')
                ''bobs data'' (session (Some ''eyJhbGciOiJIUzI1NiIsInR5cCI6IkpXVCJ9.alice'')))
     (cacheKeyFor (session (Some ''eyJhbGciOiJIUzI1NiIsInR5cCI6IkpXVCJ9.alice'')) ''/api/x'') = Some ''bobs data''"
  by (simp add: cacheKeyFor_eq_iff getCached_setCached fingerprint_def session_def)

text \<open>
  C8, amended. The key is the prefix, \<open>GET:\<close>, the URL, \<open>:t=\<close> and the fingerprint
  of the credential: its first 16 characters, or \<open>anon\<close> when it is absent or empty. For
  one URL, sessions whose fingerprints differ get different keys, and a value cached
  under one fingerprint is not returned to a read under the other.
\<close>

theorem cache_key_scoped_by_fingerprint:
  assumes "fingerprint (auth_token w1) \<noteq> fingerprint (auth_token w2)"
  shows "cacheKeyFor w1 u =
           CACHE_PREFIX @ ''GET:'' @ u @ '':t='' @
             (case auth_token w1 of
                None \<Rightarrow> ''anon''
              | Some t \<Rightarrow> if t = [] then ''anon'' else take 16 t)
         \<and> cacheKeyFor w1 u \<noteq> cacheKeyFor w2 u
         \<and> getCached (setCached now (cacheKeyFor w2 u) d w) (cacheKeyFor w1 u) =
             getCached w (cacheKeyFor w1 u)"
  using assms
  by (auto simp: cacheKeyFor_eq_iff getCached_setCached)
     (simp add: cacheKeyFor_def getTokenForCache_def fingerprint_def split: option.splits)

theorem cache_key_scoped_by_fingerprint_witness:
  "fingerprint (auth_token (session (Some ''alice-token''))) \<noteq> fingerprint (auth_token (session None)) \<and>
   cacheKeyFor (session (Some ''alice-token'')) ''/api/x'' \<noteq> cacheKeyFor (session None) ''/api/x'' \<and>
   getCached (setCached 1 (cacheKeyFor (session None) ''/api/x'') ''d'' (session (Some ''alice-token'')))
      (cacheKeyFor (session (Some ''alice-token'')) ''/api/x'') = None"
proof -
  have h: "fingerprint (auth_token (session (Some ''alice-token'')))
             \<noteq> fingerprint (auth_token (session None))"
    by (simp add: fingerprint_def session_def)
  have e: "getCached (session tok) k = None" for tok k
    by (simp add: getCached_def getItem_def session_def)
  show ?thesis
    using h cache_key_scoped_by_fingerprint
                [OF h, where u = "''/api/x''" and now = 1 and d = "''d''"
                   and w = "session (Some ''alice-token'')"]
    unfolding e by blast
qed

text \<open>
  C9, as stated, fails: the identifier is the clock reading and a random draw, and
  nothing compares it with the identifiers already queued. Two calls with the same
  reading and the same draw leave two items with one identifier in the queue.
\<close>

theorem enqueue_repeats_identifier:
  "map id' (loadQueue (lf (enqueue 5 ''k'' 6 op0 (enqueue 5 ''k'' 5 op0 (session None)))))
     = [''5-k'', ''5-k'']"
proof -
  have "loadQueue (lf (session None)) = []"
    by (simp add: session_def loadQueue_def getItem_def)
  moreover have "decimal 5 = ''5''"
    by (simp add: decimal_digit digit_def)
  ultimately show ?thesis
    by (simp add: enqueue_def Let_def loadQueue_saveQueue op0_def)
qed

text \<open>
  C9, amended. For an operation that carries its four fields only, \<open>enqueue\<close> builds an
  item with \<open>retryCount\<close> 0, the four fields, the identifier made of the clock reading
  and the draw, and the clock as \<open>createdAt\<close>; it stores the loaded queue with this item
  appended, changes no other key, and sends nothing. Two such calls give the same
  identifier exactly when the reading and the draw are the same.
\<close>

theorem enqueue_appends:
  assumes "op_id req = None" and "op_createdAt req = None" and "op_retryCount req = None"
    and "op_id req' = None"
  shows "getItem (lf (enqueue now1 rnd now2 req w)) k =
     (if k = QUEUE_KEY
      then Some (QueueVal (loadQueue (lf w) @
             [\<lparr>id' = decimal now1 @ ''-'' @ rnd, url = op_url req, method' = op_method req,
               headers = op_headers req, body = op_body req,
               createdAt = now2, retryCount = 0\<rparr>]))
      else getItem (lf w) k)
   \<and> events (enqueue now1 rnd now2 req w) = events w
   \<and> (id' (last (loadQueue (lf (enqueue now1 rnd now2 req w)))) =
      id' (last (loadQueue (lf (enqueue now1' rnd' now2' req' w'))))) = (now1 = now1' \<and> rnd = rnd')"
  using assms
  by (simp add: enqueue_def Let_def getItem_saveQueue loadQueue_saveQueue id_determines_clock_and_draw)

theorem enqueue_appends_witness:
  "op_id op0 = None \<and> op_createdAt op0 = None \<and> op_retryCount op0 = None \<and>
   getItem (lf (enqueue 7 ''x'' 8 op0 (world0 True [item0]))) QUEUE_KEY =
     Some (QueueVal [item0,
       \<lparr>id' = ''7-x'', url = ''/api/users'', method' = POST, headers = [], body = None,
        createdAt = 8, retryCount = 0\<rparr>]) \<and>
   events (enqueue 7 ''x'' 8 op0 (world0 True [item0])) = []"
proof -
  have d: "decimal 7 = ''7''"
    by (simp add: decimal_digit digit_def)
  have o: "op_id op0 = None" "op_createdAt op0 = None" "op_retryCount op0 = None"
    by (simp_all add: op0_def)
  show ?thesis
    using enqueue_appends [OF o o(1), of 7 "''x''" 8 "world0 True [item0]" QUEUE_KEY]
    by (simp add: o d loadQueue_world0 events_world0) (simp add: op0_def)
qed

text \<open>
  C10. After an online pass over a queue of \<open>n\<close> items the three returned counters add
  up to \<open>n\<close> plus the number of items that were accepted and whose cache clearing then
  threw. When every item ends in one of the modelled ways (accepted and cleared, refused,
  or retried: kept or exhausted) the counters add up to \<open>n\<close>: every item is counted
  once, as processed, as failed or as remaining.
\<close>

theorem counters_account_for_every_item:
  assumes "isOnline w"
  shows "res_processed (fst (processQueue env w))
         + res_failed (fst (processQueue env w))
         + res_remaining (fst (processQueue env w))
         = length (loadQueue (lf w))
           + length (filter (\<lambda>e. e = Broke)
                       (endings env (enumerate 0 (loadQueue (lf w))) (lf w)))
       \<and> (list_all (\<lambda>e. e \<noteq> Broke) (endings env (enumerate 0 (loadQueue (lf w))) (lf w)) \<longrightarrow>
            res_processed (fst (processQueue env w))
            + res_failed (fst (processQueue env w))
            + res_remaining (fst (processQueue env w)) = length (loadQueue (lf w)))"
proof -
  let ?q = "loadQueue (lf w)"
  let ?es = "endings env (enumerate 0 ?q) (lf w)"
  have sum: "res_processed (fst (processQueue env w))
         + res_failed (fst (processQueue env w))
         + res_remaining (fst (processQueue env w))
         = length ?q + length (filter (\<lambda>e. e = Broke) ?es)"
  proof (cases "?q = []")
    case True
    then show ?thesis
      by (simp add: processQueue_empty no_op_def)
  next
    case False
    show ?thesis
      using accounting [of env "enumerate 0 ?q" "lf w"]
      by (simp add: processQueue_online [OF assms refl False] survivors_def)
  qed
  moreover have "filter (\<lambda>e. e = Broke) ?es = []" if "list_all (\<lambda>e. e \<noteq> Broke) ?es"
    using that by (simp add: filter_empty_conv list_all_iff)
  ultimately show ?thesis
    by simp
qed

theorem counters_account_for_every_item_witness:
  "isOnline (world0 True [item0, item0\<lparr>retryCount := 5\<rparr>, item0]) \<and>
   list_all (\<lambda>e. e \<noteq> Broke)
     (endings (calm (\<lambda>i. if i = 0 then Response 201 else NetworkError))
        (enumerate 0 (loadQueue (lf (world0 True [item0, item0\<lparr>retryCount := 5\<rparr>, item0]))))
        (lf (world0 True [item0, item0\<lparr>retryCount := 5\<rparr>, item0]))) \<and>
   res_processed (fst (processQueue (calm (\<lambda>i. if i = 0 then Response 201 else NetworkError))
                         (world0 True [item0, item0\<lparr>retryCount := 5\<rparr>, item0])))
   + res_failed (fst (processQueue (calm (\<lambda>i. if i = 0 then Response 201 else NetworkError))
                         (world0 True [item0, item0\<lparr>retryCount := 5\<rparr>, item0])))
   + res_remaining (fst (processQueue (calm (\<lambda>i. if i = 0 then Response 201 else NetworkError))
                         (world0 True [item0, item0\<lparr>retryCount := 5\<rparr>, item0]))) = 3"
  using counters_account_for_every_item
          [of "world0 True [item0, item0\<lparr>retryCount := 5\<rparr>, item0]"
              "calm (\<lambda>i. if i = 0 then Response 201 else NetworkError)"]
        calm_endings [of "\<lambda>i. if i = 0 then Response 201 else NetworkError"
              "enumerate 0 (loadQueue (lf (world0 True [item0, item0\<lparr>retryCount := 5\<rparr>, item0])))"
              "lf (world0 True [item0, item0\<lparr>retryCount := 5\<rparr>, item0])"]
  by (simp add: isOnline_world0 loadQueue_world0)

end
